theory Spec2Isabelle
  imports Complex_Main
begin

section \<open>Data model\<close>

text \<open>
  The dataclass \<open>Line\<close> of \<open>karaoke.py\<close>: a time in seconds since the start and the
  lyric text. A Python \<open>float\<close> is modelled as the real number it stands for; the
  arithmetic on floats is the rounded arithmetic of the next section.
\<close>

record Line =
  t :: real
  "text" :: string

datatype error = IndexError | EmptyTrackError | PlayerUnavailableError

section \<open>Float arithmetic\<close>

text \<open>
  A Python \<open>float\<close> is an IEEE 754 double. \<open>round_double x\<close> is the double nearest to
  \<open>x\<close>, ties going to the even significand: with \<open>2 ^ e \<le> |x| < 2 ^ (e + 1)\<close> the
  doubles around \<open>x\<close> are the multiples of \<open>2 ^ (e - 52)\<close>, and below \<open>2 ^ (-1022)\<close>
  (the subnormal range) the multiples of \<open>2 ^ (-1074)\<close>. \<open>rne\<close> rounds to the nearest
  integer, ties to even; \<open>norm_exp\<close> finds \<open>e\<close> by halving or doubling, at most 2200
  times, which covers the range of the doubles. Every float operation of the program
  is the exact operation followed by \<open>round_double\<close>. Infinities and NaN are not
  modelled: beyond the largest double the model goes on rounding where Python gives
  \<open>inf\<close>.
\<close>

definition rne :: "real \<Rightarrow> int" where
  "rne q =
     (let f = \<lfloor>q\<rfloor>; r = q - of_int f
      in if r < 1 / 2 then f else if 1 / 2 < r then f + 1 else if even f then f else f + 1)"

fun norm_exp :: "nat \<Rightarrow> real \<Rightarrow> int \<Rightarrow> int" where
  "norm_exp 0 x e = e"
| "norm_exp (Suc n) x e =
     (if 2 \<le> x then norm_exp n (x / 2) (e + 1)
      else if x < 1 then norm_exp n (x * 2) (e - 1)
      else e)"

definition expo :: "real \<Rightarrow> int" where
  "expo x = max (norm_exp 2200 \<bar>x\<bar> 0) (- 1022)"

definition round_double :: "real \<Rightarrow> real" where
  "round_double x =
     (if x = 0 then 0
      else (let u = 2 powi (expo x - 52) in of_int (rne (x / u)) * u))"

text \<open>
  \<open>x + y\<close>, \<open>x - y\<close> and \<open>x / y\<close> on floats (the program divides by \<open>10.0\<close> and
  \<open>100.0\<close> only), and the conversion of an \<open>int\<close> operand to \<open>float\<close>.
\<close>

definition fadd :: "real \<Rightarrow> real \<Rightarrow> real" where
  "fadd x y = round_double (x + y)"

definition fsub :: "real \<Rightarrow> real \<Rightarrow> real" where
  "fsub x y = round_double (x - y)"

definition fdiv :: "real \<Rightarrow> real \<Rightarrow> real" where
  "fdiv x y = round_double (x / y)"

definition float_of_int :: "int \<Rightarrow> real" where
  "float_of_int n = round_double (real_of_int n)"

section \<open>Looking up the active line\<close>

text \<open>
  The subscript \<open>lyrics[mid]\<close>. An index outside \<open>0 .. len - 1\<close> is the error
  \<open>IndexError\<close> here. Python also accepts \<open>-len .. -1\<close>, counting from the end, so
  wherever this model returns \<open>Inr\<close> the index was inside \<open>0 .. len - 1\<close> and Python
  reads the same element.
\<close>

definition line_at :: "Line list \<Rightarrow> int \<Rightarrow> error + Line" where
  "line_at lyrics i =
     (if 0 \<le> i \<and> i < int (length lyrics) then Inr (lyrics ! nat i) else Inl IndexError)"

text \<open>The \<open>while lo <= hi\<close> loop of \<open>find_current_index\<close>, on Python's unbounded ints.\<close>

function find_current_index_loop ::
  "Line list \<Rightarrow> real \<Rightarrow> int \<Rightarrow> int \<Rightarrow> int \<Rightarrow> error + int" where
  "find_current_index_loop lyrics tm lo hi ans =
     (if lo \<le> hi then
        (let mid = (lo + hi) div 2 in
         case line_at lyrics mid of
           Inl e \<Rightarrow> Inl e
         | Inr entry \<Rightarrow>
             if t entry \<le> tm then find_current_index_loop lyrics tm (mid + 1) hi mid
             else find_current_index_loop lyrics tm lo (mid - 1) ans)
      else Inr ans)"
  by pat_completeness auto
termination
  by (relation "measure (\<lambda>(lyrics, tm, lo, hi, ans). nat (hi - lo + 1))") auto

definition find_current_index :: "Line list \<Rightarrow> real \<Rightarrow> error + int" where
  "find_current_index lyrics tm =
     find_current_index_loop lyrics tm 0 (int (length lyrics) - 1) (- 1)"

section \<open>Parsing the lyrics file\<close>

text \<open>
  A Python \<open>str\<close> is modelled as a \<open>string\<close> whose characters are the code points
  below 256. Among these, \<open>\d\<close> matches exactly \<open>0 .. 9\<close>, and \<open>str.strip\<close> removes
  the code points 9 to 13, 28 to 32, 133 and 160.
\<close>

definition is_digit :: "char \<Rightarrow> bool" where
  "is_digit c = (48 \<le> (of_char c :: nat) \<and> (of_char c :: nat) \<le> 57)"

definition is_space :: "char \<Rightarrow> bool" where
  "is_space c =
     (let n = (of_char c :: nat)
      in (9 \<le> n \<and> n \<le> 13) \<or> (28 \<le> n \<and> n \<le> 32) \<or> n = 133 \<or> n = 160)"

text \<open>\<open>int(s)\<close> on a string of decimal digits (the groups of a match hold nothing else).\<close>

definition digit_value :: "char \<Rightarrow> int" where
  "digit_value c = int (of_char c) - 48"

definition py_int :: "string \<Rightarrow> int" where
  "py_int s = foldl (\<lambda>a c. 10 * a + digit_value c) 0 s"

text \<open>
  The pattern \<open>TIMESTAMP\<close>, \<open>\[(\d{2}):(\d{2})(?:\.(\d{1,2}))?\]\<close>, matched at the head
  of a string. \<open>lit\<close> matches one literal character and \<open>digits n\<close> exactly \<open>n\<close> digits;
  both return the rest. \<open>fraction_options\<close> lists the ways the optional group can
  match, in the order the backtracking matcher tries them: two digits, one digit, group
  absent. A match is the groups 1, 2, 3 and the rest of the string behind it.
\<close>

definition lit :: "char \<Rightarrow> string \<Rightarrow> string option" where
  "lit c s = (case s of [] \<Rightarrow> None | x # r \<Rightarrow> if x = c then Some r else None)"

definition digits :: "nat \<Rightarrow> string \<Rightarrow> (string \<times> string) option" where
  "digits n s =
     (if n \<le> length s \<and> list_all is_digit (take n s) then Some (take n s, drop n s)
      else None)"

definition fraction_options :: "string \<Rightarrow> (string option \<times> string) list" where
  "fraction_options s =
     (case lit (CHR ''.'') s of
        None \<Rightarrow> []
      | Some r \<Rightarrow>
          (case digits 2 r of None \<Rightarrow> [] | Some (cc, r') \<Rightarrow> [(Some cc, r')]) @
          (case digits 1 r of None \<Rightarrow> [] | Some (cc, r') \<Rightarrow> [(Some cc, r')]))
     @ [(None, s)]"

fun first_closed :: "(string option \<times> string) list \<Rightarrow> (string option \<times> string) option" where
  "first_closed [] = None"
| "first_closed ((cc, r) # alts) =
     (case lit (CHR '']'') r of None \<Rightarrow> first_closed alts | Some rest \<Rightarrow> Some (cc, rest))"

type_synonym tag_match = "string \<times> string \<times> string option"

definition match_tag :: "string \<Rightarrow> (tag_match \<times> string) option" where
  "match_tag s =
     (case lit (CHR ''['') s of None \<Rightarrow> None | Some s1 \<Rightarrow>
      case digits 2 s1 of None \<Rightarrow> None | Some (mm, s2) \<Rightarrow>
      case lit (CHR '':'') s2 of None \<Rightarrow> None | Some s3 \<Rightarrow>
      case digits 2 s3 of None \<Rightarrow> None | Some (ss, s4) \<Rightarrow>
      case first_closed (fraction_options s4) of None \<Rightarrow> None
      | Some (cc, rest) \<Rightarrow> Some ((mm, ss, cc), rest))"

text \<open>A match consumes at least one character: the scans below terminate.\<close>

lemma lit_length: "lit c s = Some r \<Longrightarrow> length s = Suc (length r)"
  by (auto simp add: lit_def split: list.splits if_splits)

lemma digits_length: "digits n s = Some (d, r) \<Longrightarrow> length r \<le> length s"
  by (auto simp add: digits_def split: if_splits)

lemma fraction_options_length: "(cc, r) \<in> set (fraction_options s) \<Longrightarrow> length r \<le> length s"
  by (auto simp add: fraction_options_def split: option.splits
      dest!: lit_length [OF sym] digits_length [OF sym])

lemma first_closed_length:
  "first_closed alts = Some (cc, rest) \<Longrightarrow> \<exists>r. (cc, r) \<in> set alts \<and> length r = Suc (length rest)"
  by (induction alts rule: first_closed.induct)
     (auto split: option.splits dest: lit_length)

lemma match_tag_shorter: "match_tag s = Some (m, rest) \<Longrightarrow> length rest < length s"
proof -
  assume a: "match_tag s = Some (m, rest)"
  then obtain s1 mm s2 s3 ss s4 cc where
    l1: "lit (CHR ''['') s = Some s1" and d1: "digits 2 s1 = Some (mm, s2)" and
    l2: "lit (CHR '':'') s2 = Some s3" and d2: "digits 2 s3 = Some (ss, s4)" and
    fc: "first_closed (fraction_options s4) = Some (cc, rest)"
    by (auto simp add: match_tag_def split: option.splits)
  from fc obtain r where r: "(cc, r) \<in> set (fraction_options s4)" "length r = Suc (length rest)"
    using first_closed_length by blast
  from r(1) have "length r \<le> length s4" by (rule fraction_options_length)
  with r(2) lit_length [OF l1] digits_length [OF d1] lit_length [OF l2] digits_length [OF d2]
  show ?thesis by simp
qed

text \<open>
  \<open>TIMESTAMP.finditer(raw)\<close>: the matches from left to right, without overlap; after a
  match the search goes on behind it, otherwise one character further.
\<close>

function finditer :: "string \<Rightarrow> tag_match list" where
  "finditer s =
     (case match_tag s of
        Some (m, rest) \<Rightarrow> m # finditer rest
      | None \<Rightarrow> (case s of [] \<Rightarrow> [] | c # cs \<Rightarrow> finditer cs))"
  by pat_completeness auto
termination
  by (relation "measure length") (auto dest: match_tag_shorter)

text \<open>\<open>TIMESTAMP.sub("", raw)\<close>: the same matches, each replaced by the empty string.\<close>

function timestamp_sub :: "string \<Rightarrow> string" where
  "timestamp_sub s =
     (case match_tag s of
        Some (m, rest) \<Rightarrow> timestamp_sub rest
      | None \<Rightarrow> (case s of [] \<Rightarrow> [] | c # cs \<Rightarrow> c # timestamp_sub cs))"
  by pat_completeness auto
termination
  by (relation "measure length") (auto dest: match_tag_shorter)

definition strip :: "string \<Rightarrow> string" where
  "strip s = rev (dropWhile is_space (rev (dropWhile is_space s)))"

definition rstrip_newline :: "string \<Rightarrow> string" where
  "rstrip_newline s = rev (dropWhile (\<lambda>c. c = CHR 0x0A) (rev s))"

text \<open>
  The body of \<open>for m in stamps\<close>: the time of one match, from its three groups.
\<close>

definition tag_time :: "tag_match \<Rightarrow> real" where
  "tag_time m =
     (case m of (g1, g2, g3) \<Rightarrow>
        let mm = py_int g1;
            ss = py_int g2;
            cc = (case g3 of None \<Rightarrow> ''0'' | Some g \<Rightarrow> if g = [] then ''0'' else g);
            frac = (if length cc = 1 then fdiv (float_of_int (py_int cc)) 10
                    else fdiv (float_of_int (py_int (take 2 cc))) 100)
        in fadd (float_of_int (mm * 60 + ss)) frac)"

text \<open>The body of \<open>for raw in f\<close>, returning the lines it appends.\<close>

definition parse_line :: "string \<Rightarrow> Line list" where
  "parse_line raw0 =
     (let raw = rstrip_newline raw0;
          stamps = finditer raw
      in if stamps = [] then []
         else (let txt = strip (timestamp_sub raw)
               in map (\<lambda>m. \<lparr>t = tag_time m, text = txt\<rparr>) stamps))"

text \<open>
  The file object: \<open>open(path, "r")\<close> translates \<open>\r\n\<close> and \<open>\r\<close> to \<open>\n\<close>, and
  iterating over it yields the lines, each with its terminating \<open>\n\<close> when it has one.
\<close>

fun universal_newlines :: "string \<Rightarrow> string" where
  "universal_newlines (a # b # cs) =
     (if a = CHR 0x0D \<and> b = CHR 0x0A then CHR 0x0A # universal_newlines cs
      else if a = CHR 0x0D then CHR 0x0A # universal_newlines (b # cs)
      else a # universal_newlines (b # cs))"
| "universal_newlines [a] = (if a = CHR 0x0D then [CHR 0x0A] else [a])"
| "universal_newlines [] = []"

fun file_lines :: "string \<Rightarrow> string list" where
  "file_lines [] = []"
| "file_lines (c # cs) =
     (if c = CHR 0x0A then [c] # file_lines cs
      else (case file_lines cs of [] \<Rightarrow> [[c]] | l # ls \<Rightarrow> (c # l) # ls))"

text \<open>
  \<open>parse_lrc\<close>, given the content of the file at \<open>path\<close>. \<open>parse_unsorted\<close> is the list
  before \<open>lines.sort(key=lambda x: x.t)\<close>; the sort is Python's stable sort.
\<close>

definition parse_unsorted :: "string \<Rightarrow> Line list" where
  "parse_unsorted content = concat (map parse_line (file_lines (universal_newlines content)))"

definition parse_lrc :: "string \<Rightarrow> Line list" where
  "parse_lrc content = sort_key t (parse_unsorted content)"

section \<open>The session: clock, key handling and the main loop\<close>

text \<open>
  The local variables of \<open>karaoke\<close> that the loop reads and writes. \<open>start\<close> is the
  anchor of the clock and \<open>offset\<close> the value shown in the title line. Drawing
  (\<open>draw_progress\<close>, the visible lines) and the command line of the player
  (\<open>build_ffplay_cmd\<close>) change none of them and are left out.
\<close>

record session =
  lyrics :: "Line list"
  last_stamp :: real
  start :: real
  offset :: real
  active_idx :: int

text \<open>\<open>start = time.perf_counter() + offset\<close> and \<open>active_idx = -1\<close>, before the loop.\<close>

definition initial_session :: "Line list \<Rightarrow> real \<Rightarrow> real \<Rightarrow> session" where
  "initial_session lyr perf_counter offset0 =
     \<lparr>lyrics = lyr, last_stamp = t (last lyr), start = fadd perf_counter offset0,
      offset = offset0, active_idx = - 1\<rparr>"

text \<open>\<open>now = time.perf_counter() - start\<close>.\<close>

definition elapsed :: "session \<Rightarrow> real \<Rightarrow> real" where
  "elapsed s perf_counter = fsub perf_counter (start s)"

text \<open>The key codes of curses, and \<open>ord('q')\<close> and ESC.\<close>

definition KEY_DOWN :: int where "KEY_DOWN = 258"
definition KEY_UP :: int where "KEY_UP = 259"
definition ord_q :: int where "ord_q = 113"
definition ESC :: int where "ESC = 27"

text \<open>The literal \<open>0.05\<close>: the double nearest to \<open>5 / 100\<close>.\<close>

definition step_0_05 :: real where
  "step_0_05 = round_double (5 / 100)"

text \<open>
  The block \<open>if ch != -1: ...\<close>. \<open>None\<close> is the \<open>break\<close> of the quit keys; otherwise
  the session as the block leaves it.
\<close>

definition handle_key :: "int \<Rightarrow> session \<Rightarrow> session option" where
  "handle_key ch s =
     (if ch \<noteq> - 1 then
        (if ch = ord_q \<or> ch = ESC then None
         else if ch = KEY_UP then
           Some (s\<lparr>offset := fadd (offset s) step_0_05, start := fsub (start s) step_0_05\<rparr>)
         else if ch = KEY_DOWN then
           Some (s\<lparr>offset := fsub (offset s) step_0_05, start := fadd (start s) step_0_05\<rparr>)
         else Some s)
      else Some s)"

text \<open>
  The operation \<open>nudge(clock, d)\<close> as the specification words it, in float arithmetic:
  the anchor moves by \<open>-d\<close> and the displayed offset by \<open>d\<close>. The program has no such
  function; its two arrow-key branches are compared with \<open>nudge\<close> of the literal
  \<open>0.05\<close> and of its negative below.
\<close>

definition nudge :: "real \<Rightarrow> session \<Rightarrow> session" where
  "nudge d s = s\<lparr>offset := fadd (offset s) d, start := fsub (start s) d\<rparr>"

text \<open>
  What one iteration of \<open>while True\<close> observes: the reading of \<open>time.perf_counter()\<close>,
  the result of \<open>stdscr.getch()\<close> (a key code, \<open>-1\<close> for no key, or a
  \<open>KeyboardInterrupt\<close>, which the program turns into \<open>ord('q')\<close>), and the result of
  \<open>player.poll()\<close> (\<open>None\<close> while the player runs, else its return code).
\<close>

datatype getch_result = Got int | KeyboardInterrupt

record observation =
  perf_counter :: real
  getch :: getch_result
  poll :: "int option"

text \<open>
  How an iteration ends: it goes on to the next one, leaves the loop by a quit key,
  leaves it because the player finished and the last lyric has passed, or raises.
\<close>

datatype step = Continue session | Break_quit session | Break_finished session | Raised error

definition tick :: "session \<Rightarrow> observation \<Rightarrow> step" where
  "tick s ob =
     (let now = elapsed s (perf_counter ob) in
      case find_current_index (lyrics s) now of
        Inl e \<Rightarrow> Raised e
      | Inr idx \<Rightarrow>
          let s1 = (if idx \<noteq> active_idx s then s\<lparr>active_idx := idx\<rparr> else s);
              ch = (case getch ob of Got c \<Rightarrow> c | KeyboardInterrupt \<Rightarrow> ord_q)
          in case handle_key ch s1 of
               None \<Rightarrow> Break_quit s1
             | Some s2 \<Rightarrow>
                 if poll ob \<noteq> None \<and> now > fadd (last_stamp s) 1 then Break_finished s2
                 else Continue s2)"

text \<open>
  The loop over the observations of its iterations, one per iteration, with the number
  of iterations it started. When the observations run out the loop is still running.
\<close>

fun main_loop :: "session \<Rightarrow> observation list \<Rightarrow> nat \<times> step" where
  "main_loop s [] = (0, Continue s)"
| "main_loop s (ob # obs) =
     (case tick s ob of
        Continue s' \<Rightarrow> (case main_loop s' obs of (n, r) \<Rightarrow> (Suc n, r))
      | r \<Rightarrow> (Suc 0, r))"

text \<open>
  \<open>karaoke\<close> up to the end of its loop, given the content of the lyrics file, whether
  \<open>subprocess.Popen\<close> finds \<open>ffplay\<close>, the clock reading at line 136 and the
  observations of the loop. The result tells whether \<open>Popen\<close> was called, how many
  iterations of the loop were started, and how the function ended.
\<close>

record run =
  popen_called :: bool
  iterations :: nat
  outcome :: "error + step"

definition karaoke :: "string \<Rightarrow> real \<Rightarrow> bool \<Rightarrow> real \<Rightarrow> observation list \<Rightarrow> run" where
  "karaoke lrc offset0 ffplay_found clock0 obs =
     (let lyr = parse_lrc lrc in
      if lyr = [] then \<lparr>popen_called = False, iterations = 0, outcome = Inl EmptyTrackError\<rparr>
      else if \<not> ffplay_found then
        \<lparr>popen_called = True, iterations = 0, outcome = Inl PlayerUnavailableError\<rparr>
      else (case main_loop (initial_session lyr clock0 offset0) obs of
              (n, r) \<Rightarrow> \<lparr>popen_called = True, iterations = n, outcome = Inr r\<rparr>))"

text \<open>
  The lyrics file of the specification's scenario: three lines, the last two with the
  same time.
\<close>

definition tie_example :: string where
  "tie_example =
     ''[00:01.50]Hello'' @ [CHR 0x0A] @ ''[00:03]World'' @ [CHR 0x0A] @ ''[00:03]Again''"

text \<open>The character of the decimal digit \<open>n\<close>, \<open>chr(48 + n)\<close>, to build tags from digits.\<close>

definition digit_char :: "nat \<Rightarrow> char" where
  "digit_char n = char_of (48 + n)"

text \<open>
  Names for three parts of \<open>tick\<close>, used in the lemmas about it: the session after
  \<open>active_idx\<close> is updated, the key code after the \<open>try ... except\<close> around \<open>getch\<close>,
  and the condition of line 202.
\<close>

definition seen :: "session \<Rightarrow> observation \<Rightarrow> session" where
  "seen s ob =
     (case find_current_index (lyrics s) (elapsed s (perf_counter ob)) of
        Inl e \<Rightarrow> s
      | Inr idx \<Rightarrow> if idx \<noteq> active_idx s then s\<lparr>active_idx := idx\<rparr> else s)"

definition key_code :: "getch_result \<Rightarrow> int" where
  "key_code g = (case g of Got c \<Rightarrow> c | KeyboardInterrupt \<Rightarrow> ord_q)"

definition finished :: "session \<Rightarrow> observation \<Rightarrow> bool" where
  "finished s ob =
     (poll ob \<noteq> None \<and> elapsed s (perf_counter ob) > fadd (last_stamp s) 1)"

text \<open>
  A session for the examples: the track of \<open>tie_example\<close>, started at clock reading
  \<open>100\<close> with offset \<open>0\<close>.
\<close>

definition demo_session :: session where
  "demo_session = initial_session (parse_lrc tie_example) 100 0"

section \<open>Properties of the float arithmetic\<close>

lemma rne_error: "\<bar>of_int (rne q) - q\<bar> \<le> 1 / 2"
  unfolding rne_def Let_def by (auto simp add: abs_le_iff)

lemma rne_of_int: "rne (of_int m) = m"
  by (simp add: rne_def)

lemma norm_exp_down:
  "1 \<le> x \<Longrightarrow> x < 2 powi (k + 1) \<Longrightarrow> 0 \<le> k \<Longrightarrow> norm_exp n x e \<le> e + k"
proof (induction n arbitrary: x e k)
  case 0
  then show ?case by simp
next
  case (Suc n)
  show ?case
  proof (cases "2 \<le> x")
    case False
    with Suc.prems show ?thesis by simp
  next
    case True
    have kpos: "1 \<le> k"
    proof (rule ccontr)
      assume "\<not> 1 \<le> k"
      with Suc.prems have "k = 0" by simp
      with Suc.prems True show False by simp
    qed
    have "x / 2 < 2 powi k"
      using Suc.prems(2) kpos by (simp add: power_int_add)
    then have "x / 2 < 2 powi ((k - 1) + 1)" by simp
    from Suc.IH [OF _ this, of "e + 1"] True kpos
    have "norm_exp n (x / 2) (e + 1) \<le> e + 1 + (k - 1)" by simp
    with True show ?thesis by simp
  qed
qed

lemma norm_exp_up:
  "0 < x \<Longrightarrow> x < 1 \<Longrightarrow> x < 2 powi (k + 1) \<Longrightarrow> norm_exp n x e \<le> max (e + k) (e - int n)"
proof (induction n arbitrary: x e k)
  case 0
  then show ?case by simp
next
  case (Suc n)
  show ?case
  proof (cases "x * 2 < 1")
    case True
    have "x * 2 < 2 powi ((k + 1) + 1)"
      using Suc.prems(3) by (simp add: power_int_add)
    from Suc.IH [OF _ True this, of "e - 1"] Suc.prems(1)
    have "norm_exp n (x * 2) (e - 1) \<le> max (e - 1 + (k + 1)) (e - 1 - int n)" by simp
    with Suc.prems show ?thesis by simp
  next
    case False
    with Suc.prems have r: "norm_exp n (x * 2) (e - 1) = e - 1"
      by (cases n) simp_all
    have "- 1 \<le> k"
    proof (rule ccontr)
      assume "\<not> - 1 \<le> k"
      then have "k + 1 \<le> - 1" by simp
      then have "(2::real) powi (k + 1) \<le> 2 powi (- 1)"
        by (intro power_int_increasing) simp_all
      with Suc.prems(3) False show False by simp
    qed
    with r Suc.prems show ?thesis by simp
  qed
qed

lemma expo_le:
  assumes "\<bar>x\<bar> < 2 powi (k + 1)" and "- 1022 \<le> k" and "x \<noteq> 0"
  shows "expo x \<le> k"
proof (cases "1 \<le> \<bar>x\<bar>")
  case True
  have "0 \<le> k"
  proof (rule ccontr)
    assume "\<not> 0 \<le> k"
    then have "k + 1 \<le> 0" by simp
    then have "(2::real) powi (k + 1) \<le> 2 powi 0"
      by (intro power_int_increasing) simp_all
    with assms(1) True show False by simp
  qed
  from norm_exp_down [OF True assms(1) this, of 2200 0] assms(2) show ?thesis
    by (simp add: expo_def)
next
  case False
  then have "\<bar>x\<bar> < 1" by simp
  from norm_exp_up [OF _ this assms(1), of 2200 0] assms(3)
  have "norm_exp 2200 \<bar>x\<bar> 0 \<le> max k (- 2200)" by simp
  with assms(2) show ?thesis by (simp add: expo_def)
qed

lemma round_double_error:
  assumes "\<bar>x\<bar> < 2 powi (k + 1)" and "- 1022 \<le> k"
  shows "\<bar>round_double x - x\<bar> \<le> 2 powi (k - 53)"
proof (cases "x = 0")
  case True
  then show ?thesis by (simp add: round_double_def)
next
  case False
  define u :: real where "u = 2 powi (expo x - 52)"
  have upos: "0 < u" by (simp add: u_def)
  have rd: "round_double x = of_int (rne (x / u)) * u"
    using False by (simp add: round_double_def u_def Let_def)
  have "\<bar>of_int (rne (x / u)) * u - x\<bar> = \<bar>of_int (rne (x / u)) - x / u\<bar> * u"
  proof -
    have "of_int (rne (x / u)) * u - x = (of_int (rne (x / u)) - x / u) * u"
      using upos by (simp add: field_simps)
    then show ?thesis using upos by (simp add: abs_mult)
  qed
  also have "\<dots> \<le> 1 / 2 * u"
    using rne_error [of "x / u"] upos by (intro mult_right_mono) simp_all
  also have "\<dots> = 2 powi (expo x - 53)"
    by (simp add: u_def power_int_diff)
  also have "\<dots> \<le> 2 powi (k - 53)"
    using expo_le [OF assms False] by (intro power_int_increasing) simp_all
  finally show ?thesis by (simp add: rd)
qed

lemma round_double_of_int:
  assumes "\<bar>n\<bar> < 2 ^ 53"
  shows "round_double (of_int n) = of_int n"
proof (cases "n = 0")
  case True
  then show ?thesis by (simp add: round_double_def)
next
  case False
  define x :: real where "x = of_int n"
  have x0: "x \<noteq> 0" using False by (simp add: x_def)
  have "\<bar>x\<bar> < 2 ^ 53"
  proof -
    have "real_of_int \<bar>n\<bar> < real_of_int (2 ^ 53)" using assms by (simp only: of_int_less_iff)
    then show ?thesis by (simp add: x_def)
  qed
  then have "\<bar>x\<bar> < 2 powi (52 + 1)" by simp
  from expo_le [OF this _ x0] have e: "expo x \<le> 52" by simp
  define j where "j = nat (52 - expo x)"
  have u: "(2::real) powi (expo x - 52) = 1 / 2 ^ j"
  proof -
    have "expo x - 52 = - int j" using e by (simp add: j_def)
    then have "(2::real) powi (expo x - 52) = 2 powi (- int j)" by simp
    also have "\<dots> = inverse (2 ^ j)" by (simp only: power_int_minus power_int_of_nat)
    finally show ?thesis by (simp add: field_simps)
  qed
  have "x / (1 / 2 ^ j) = of_int (n * 2 ^ j)" by (simp add: x_def)
  then have "rne (x / (1 / 2 ^ j)) = n * 2 ^ j" by (simp only: rne_of_int)
  then have "round_double x = of_int (n * 2 ^ j) * (1 / 2 ^ j)"
    using x0 by (simp add: round_double_def Let_def u)
  also have "\<dots> = x" by (simp add: x_def)
  finally show ?thesis by (simp add: x_def)
qed

section \<open>Properties of the lookup\<close>

declare find_current_index_loop.simps [simp del]

lemma loop_result:
  "0 \<le> lo \<Longrightarrow> hi < int (length ls) \<Longrightarrow> lo \<le> hi + 1 \<Longrightarrow>
   \<exists>r. find_current_index_loop ls tm lo hi ans = Inr r \<and> (r = ans \<or> (lo \<le> r \<and> r \<le> hi))"
proof (induction ls tm lo hi ans rule: find_current_index_loop.induct)
  case (1 ls tm lo hi ans)
  show ?case
  proof (cases "lo \<le> hi")
    case False
    then show ?thesis
      by (simp add: find_current_index_loop.simps [of ls tm lo hi ans])
  next
    case True
    define mid where "mid = (lo + hi) div 2"
    have mid_lo: "lo \<le> mid" and mid_hi: "mid \<le> hi"
      using True by (simp_all add: mid_def)
    have at: "line_at ls mid = Inr (ls ! nat mid)"
      using mid_lo mid_hi "1.prems" by (simp add: line_at_def)
    show ?thesis
    proof (cases "t (ls ! nat mid) \<le> tm")
      case le: True
      have "\<exists>r. find_current_index_loop ls tm (mid + 1) hi mid = Inr r \<and>
                (r = mid \<or> (mid + 1 \<le> r \<and> r \<le> hi))"
        using "1.IH"(1) [OF True mid_def at le] mid_lo mid_hi "1.prems" by simp
      then show ?thesis
        using True at le mid_lo mid_hi
        by (auto simp add: find_current_index_loop.simps [of ls tm lo hi ans]
            mid_def [symmetric] Let_def)
    next
      case gt: False
      have "\<exists>r. find_current_index_loop ls tm lo (mid - 1) ans = Inr r \<and>
                (r = ans \<or> (lo \<le> r \<and> r \<le> mid - 1))"
        using "1.IH"(2) [OF True mid_def at gt] mid_lo mid_hi "1.prems" by simp
      then show ?thesis
        using True at gt mid_lo mid_hi
        by (auto simp add: find_current_index_loop.simps [of ls tm lo hi ans]
            mid_def [symmetric] Let_def)
    qed
  qed
qed

lemma sorted_t_mono:
  "sorted (map t ls) \<Longrightarrow> i \<le> j \<Longrightarrow> j < length ls \<Longrightarrow> t (ls ! i) \<le> t (ls ! j)"
  using sorted_nth_mono [of "map t ls" i j] by simp

lemma loop_sorted:
  "sorted (map t ls) \<Longrightarrow> 0 \<le> lo \<Longrightarrow> hi < int (length ls) \<Longrightarrow> lo \<le> hi + 1 \<Longrightarrow>
   (\<forall>j. int j < lo \<longrightarrow> t (ls ! j) \<le> tm) \<Longrightarrow>
   (\<forall>j. hi < int j \<and> j < length ls \<longrightarrow> tm < t (ls ! j)) \<Longrightarrow>
   ans = lo - 1 \<Longrightarrow>
   \<exists>r. find_current_index_loop ls tm lo hi ans = Inr r \<and> - 1 \<le> r \<and> r < int (length ls) \<and>
       (\<forall>j < length ls. (int j \<le> r) = (t (ls ! j) \<le> tm))"
proof (induction ls tm lo hi ans rule: find_current_index_loop.induct)
  case (1 ls tm lo hi ans)
  show ?case
  proof (cases "lo \<le> hi")
    case False
    with "1.prems" have eq: "lo = hi + 1" by simp
    have "\<forall>j < length ls. (int j \<le> ans) = (t (ls ! j) \<le> tm)"
    proof (intro allI impI)
      fix j assume j: "j < length ls"
      show "(int j \<le> ans) = (t (ls ! j) \<le> tm)"
      proof (cases "int j < lo")
        case True
        with "1.prems" show ?thesis by simp
      next
        case False
        with eq have "hi < int j" by simp
        with j "1.prems" have "tm < t (ls ! j)" by blast
        with False "1.prems" show ?thesis by simp
      qed
    qed
    moreover have "find_current_index_loop ls tm lo hi ans = Inr ans"
      using False by (simp add: find_current_index_loop.simps [of ls tm lo hi ans])
    moreover have "- 1 \<le> ans" "ans < int (length ls)"
      using eq "1.prems" by simp_all
    ultimately show ?thesis by blast
  next
    case True
    define mid where "mid = (lo + hi) div 2"
    have mid_lo: "lo \<le> mid" and mid_hi: "mid \<le> hi"
      using True by (simp_all add: mid_def)
    have mid_len: "nat mid < length ls" using mid_lo mid_hi "1.prems" by simp
    have at: "line_at ls mid = Inr (ls ! nat mid)"
      using mid_lo mid_hi "1.prems" by (simp add: line_at_def)
    show ?thesis
    proof (cases "t (ls ! nat mid) \<le> tm")
      case le: True
      have below: "\<forall>j. int j < mid + 1 \<longrightarrow> t (ls ! j) \<le> tm"
      proof (intro allI impI)
        fix j assume "int j < mid + 1"
        then have "j \<le> nat mid" by linarith
        from sorted_t_mono [OF "1.prems"(1) this mid_len] le show "t (ls ! j) \<le> tm" by simp
      qed
      have "\<exists>r. find_current_index_loop ls tm (mid + 1) hi mid = Inr r \<and> - 1 \<le> r \<and>
               r < int (length ls) \<and> (\<forall>j < length ls. (int j \<le> r) = (t (ls ! j) \<le> tm))"
        using "1.IH"(1) [OF True mid_def at le "1.prems"(1) _ "1.prems"(3) _ below "1.prems"(6)]
          mid_lo mid_hi "1.prems"(2) by simp
      then show ?thesis
        using True at le
        by (simp add: find_current_index_loop.simps [of ls tm lo hi ans]
            mid_def [symmetric] Let_def)
    next
      case gt: False
      have above: "\<forall>j. mid - 1 < int j \<and> j < length ls \<longrightarrow> tm < t (ls ! j)"
      proof (intro allI impI)
        fix j assume j: "mid - 1 < int j \<and> j < length ls"
        then have "nat mid \<le> j" by linarith
        from sorted_t_mono [OF "1.prems"(1) this] j gt show "tm < t (ls ! j)" by simp
      qed
      have "\<exists>r. find_current_index_loop ls tm lo (mid - 1) ans = Inr r \<and> - 1 \<le> r \<and>
               r < int (length ls) \<and> (\<forall>j < length ls. (int j \<le> r) = (t (ls ! j) \<le> tm))"
        using "1.IH"(2) [OF True mid_def at gt "1.prems"(1,2) _ _ "1.prems"(5) above "1.prems"(7)]
          mid_lo mid_hi "1.prems"(3) by simp
      then show ?thesis
        using True at gt
        by (simp add: find_current_index_loop.simps [of ls tm lo hi ans]
            mid_def [symmetric] Let_def)
    qed
  qed
qed

lemma find_current_index_sorted:
  "sorted (map t ls) \<Longrightarrow>
   \<exists>r. find_current_index ls tm = Inr r \<and> - 1 \<le> r \<and> r < int (length ls) \<and>
       (\<forall>j < length ls. (int j \<le> r) = (t (ls ! j) \<le> tm))"
  unfolding find_current_index_def
  by (rule loop_sorted) simp_all

lemma loop_mono:
  "0 \<le> lo \<Longrightarrow> hi < int (length ls) \<Longrightarrow> lo \<le> hi + 1 \<Longrightarrow> ans < lo \<Longrightarrow> t1 \<le> t2 \<Longrightarrow>
   \<exists>r1 r2. find_current_index_loop ls t1 lo hi ans = Inr r1 \<and>
           find_current_index_loop ls t2 lo hi ans = Inr r2 \<and> r1 \<le> r2"
proof (induction ls t1 lo hi ans rule: find_current_index_loop.induct)
  case (1 ls t1 lo hi ans)
  show ?case
  proof (cases "lo \<le> hi")
    case False
    then show ?thesis
      by (simp add: find_current_index_loop.simps [of ls _ lo hi ans])
  next
    case True
    define mid where "mid = (lo + hi) div 2"
    have mid_lo: "lo \<le> mid" and mid_hi: "mid \<le> hi"
      using True by (simp_all add: mid_def)
    have at: "line_at ls mid = Inr (ls ! nat mid)"
      using mid_lo mid_hi "1.prems" by (simp add: line_at_def)
    have unfold1: "find_current_index_loop ls tm lo hi ans =
        (if t (ls ! nat mid) \<le> tm then find_current_index_loop ls tm (mid + 1) hi mid
         else find_current_index_loop ls tm lo (mid - 1) ans)" for tm
      using True at
      by (simp add: find_current_index_loop.simps [of ls tm lo hi ans] mid_def [symmetric] Let_def)
    show ?thesis
    proof (cases "t (ls ! nat mid) \<le> t1")
      case le: True
      with \<open>t1 \<le> t2\<close> have le2: "t (ls ! nat mid) \<le> t2" by simp
      have "\<exists>r1 r2. find_current_index_loop ls t1 (mid + 1) hi mid = Inr r1 \<and>
           find_current_index_loop ls t2 (mid + 1) hi mid = Inr r2 \<and> r1 \<le> r2"
        using "1.IH"(1) [OF True mid_def at le] mid_lo mid_hi "1.prems" by simp
      then show ?thesis using le le2 by (simp add: unfold1)
    next
      case gt: False
      show ?thesis
      proof (cases "t (ls ! nat mid) \<le> t2")
        case False
        have "\<exists>r1 r2. find_current_index_loop ls t1 lo (mid - 1) ans = Inr r1 \<and>
           find_current_index_loop ls t2 lo (mid - 1) ans = Inr r2 \<and> r1 \<le> r2"
          using "1.IH"(2) [OF True mid_def at gt] mid_lo mid_hi "1.prems" by simp
        then show ?thesis using gt False by (simp add: unfold1)
      next
        case le2: True
        obtain r1 where r1: "find_current_index_loop ls t1 lo (mid - 1) ans = Inr r1"
          "r1 = ans \<or> (lo \<le> r1 \<and> r1 \<le> mid - 1)"
          using loop_result [of lo "mid - 1" ls t1 ans] mid_lo mid_hi "1.prems" by auto
        obtain r2 where r2: "find_current_index_loop ls t2 (mid + 1) hi mid = Inr r2"
          "r2 = mid \<or> (mid + 1 \<le> r2 \<and> r2 \<le> hi)"
          using loop_result [of "mid + 1" hi ls t2 mid] mid_lo mid_hi "1.prems" by auto
        from r1(2) r2(2) mid_lo \<open>ans < lo\<close> have "r1 \<le> r2" by auto
        with r1(1) r2(1) gt le2 show ?thesis by (simp add: unfold1)
      qed
    qed
  qed
qed

lemma tie_track:
  "parse_lrc tie_example =
     [\<lparr>t = 1.5, text = ''Hello''\<rparr>, \<lparr>t = 3, text = ''World''\<rparr>, \<lparr>t = 3, text = ''Again''\<rparr>]"
  by code_simp

section \<open>Claims about the lookup\<close>

text \<open>
  C10. For every list of lines, the empty one included, and every time,
  \<open>find_current_index\<close> returns: the loop terminates (the function is total, by the
  measure \<open>hi - lo + 1\<close>), no subscript leaves \<open>0 .. len - 1\<close> (the result is never
  \<open>Inl IndexError\<close>), and the index returned lies between \<open>-1\<close> and \<open>len - 1\<close>. On the
  empty list it is \<open>-1\<close>.
\<close>

theorem find_current_index_in_range:
  "(\<exists>r. find_current_index ls tm = Inr r \<and> - 1 \<le> r \<and> r \<le> int (length ls) - 1) \<and>
   find_current_index [] tm = Inr (- 1)"
proof
  obtain r where "find_current_index_loop ls tm 0 (int (length ls) - 1) (- 1) = Inr r"
    "r = - 1 \<or> (0 \<le> r \<and> r \<le> int (length ls) - 1)"
    using loop_result [of 0 "int (length ls) - 1" ls tm "- 1"] by auto
  then show "\<exists>r. find_current_index ls tm = Inr r \<and> - 1 \<le> r \<and> r \<le> int (length ls) - 1"
    unfolding find_current_index_def by auto
  show "find_current_index [] tm = Inr (- 1)"
    by (simp add: find_current_index_def find_current_index_loop.simps [of "[]"])
qed

text \<open>
  C8. For a fixed track the active index is monotonic in time: if \<open>t1 \<le> t2\<close> then the
  index at \<open>t1\<close> is at most the index at \<open>t2\<close>. This holds for every list, sorted or not.
\<close>

theorem find_current_index_monotonic:
  "t1 \<le> t2 \<Longrightarrow>
   \<exists>r1 r2. find_current_index ls t1 = Inr r1 \<and> find_current_index ls t2 = Inr r2 \<and> r1 \<le> r2"
  unfolding find_current_index_def by (rule loop_mono) simp_all

theorem find_current_index_monotonic_witness:
  "(29 / 10 :: real) \<le> 3 \<and>
   (\<exists>r1 r2. find_current_index (parse_lrc tie_example) (29 / 10) = Inr r1 \<and>
            find_current_index (parse_lrc tie_example) 3 = Inr r2 \<and> r1 \<le> r2)"
  using find_current_index_monotonic [of "29 / 10" 3 "parse_lrc tie_example"] by simp

text \<open>
  C1. On a track sorted by time, \<open>find_current_index\<close> returns the index \<open>r\<close> of the
  rightmost line whose time is at most \<open>tm\<close>: exactly the lines at indices up to \<open>r\<close>
  have a time at most \<open>tm\<close>; and \<open>r = -1\<close> when \<open>tm\<close> is before the first time. For the
  file of the scenario the track is \<open>(1.5, Hello), (3, World), (3, Again)\<close>, and the
  index is \<open>0\<close> at \<open>2.9\<close>, \<open>2\<close> at \<open>3\<close> (the last line of the tie) and \<open>-1\<close> at \<open>0\<close>.
\<close>

theorem find_current_index_rightmost:
  "(sorted (map t ls) \<longrightarrow>
      (\<exists>r. find_current_index ls tm = Inr r \<and> - 1 \<le> r \<and> r < int (length ls) \<and>
           (\<forall>j < length ls. (int j \<le> r) = (t (ls ! j) \<le> tm)) \<and>
           (ls \<noteq> [] \<and> tm < t (ls ! 0) \<longrightarrow> r = - 1))) \<and>
   parse_lrc tie_example =
     [\<lparr>t = 1.5, text = ''Hello''\<rparr>, \<lparr>t = 3, text = ''World''\<rparr>, \<lparr>t = 3, text = ''Again''\<rparr>] \<and>
   find_current_index (parse_lrc tie_example) 2.9 = Inr 0 \<and>
   find_current_index (parse_lrc tie_example) 3 = Inr 2 \<and>
   find_current_index (parse_lrc tie_example) 0 = Inr (- 1)"
proof (intro conjI impI)
  assume srt: "sorted (map t ls)"
  from find_current_index_sorted [OF srt, of tm] obtain r where
    r: "find_current_index ls tm = Inr r" "- 1 \<le> r" "r < int (length ls)"
       "\<forall>j < length ls. (int j \<le> r) = (t (ls ! j) \<le> tm)"
    by blast
  have "r = - 1" if "ls \<noteq> []" "tm < t (ls ! 0)"
  proof -
    from that(1) have "0 < length ls" by simp
    with r(4) have "(int 0 \<le> r) = (t (ls ! 0) \<le> tm)" by blast
    with that(2) r(2) show ?thesis by simp
  qed
  with r show "\<exists>r. find_current_index ls tm = Inr r \<and> - 1 \<le> r \<and> r < int (length ls) \<and>
           (\<forall>j < length ls. (int j \<le> r) = (t (ls ! j) \<le> tm)) \<and>
           (ls \<noteq> [] \<and> tm < t (ls ! 0) \<longrightarrow> r = - 1)"
    by blast
next
  show "parse_lrc tie_example =
     [\<lparr>t = 1.5, text = ''Hello''\<rparr>, \<lparr>t = 3, text = ''World''\<rparr>, \<lparr>t = 3, text = ''Again''\<rparr>]"
    by (rule tie_track)
  show "find_current_index (parse_lrc tie_example) 2.9 = Inr 0"
    unfolding tie_track by code_simp
  show "find_current_index (parse_lrc tie_example) 3 = Inr 2"
    unfolding tie_track by code_simp
  show "find_current_index (parse_lrc tie_example) 0 = Inr (- 1)"
    unfolding tie_track by code_simp
qed

lemma tie_sorted: "sorted (map t (parse_lrc tie_example))"
  unfolding tie_track by simp

theorem find_current_index_rightmost_witness:
  "sorted (map t (parse_lrc tie_example)) \<and>
   (\<exists>r. find_current_index (parse_lrc tie_example) 3 = Inr r \<and>
        (\<forall>j < length (parse_lrc tie_example). (int j \<le> r) = (t (parse_lrc tie_example ! j) \<le> 3)))"
  using find_current_index_rightmost [of "parse_lrc tie_example" 3] tie_sorted by blast

section \<open>Lemmas about the parser\<close>

declare finditer.simps [simp del] timestamp_sub.simps [simp del]

lemma universal_newlines_id: "CHR 0x0D \<notin> set s \<Longrightarrow> universal_newlines s = s"
  by (induction s rule: universal_newlines.induct) auto

lemma file_lines_one: "s \<noteq> [] \<Longrightarrow> CHR 0x0A \<notin> set s \<Longrightarrow> file_lines s = [s]"
proof (induction s)
  case Nil
  then show ?case by simp
next
  case (Cons c cs)
  then show ?case by (cases cs) auto
qed

lemma rstrip_newline_id: "CHR 0x0A \<notin> set s \<Longrightarrow> rstrip_newline s = s"
proof -
  assume "CHR 0x0A \<notin> set s"
  then have "\<forall>x \<in> set (rev s). x \<noteq> CHR 0x0A" by auto
  then have "dropWhile (\<lambda>c. c = CHR 0x0A) (rev s) = rev s"
    by (cases "rev s") simp_all
  then show ?thesis by (simp add: rstrip_newline_def)
qed

lemma is_digit_not_special:
  "is_digit c \<Longrightarrow> c \<noteq> CHR 0x0A \<and> c \<noteq> CHR 0x0D \<and> c \<noteq> CHR '']'' \<and> c \<noteq> CHR ''.''"
  by (auto simp add: is_digit_def)

lemma not_digit_bracket: "\<not> is_digit (CHR '']'')"
  by (simp add: is_digit_def)

lemma match_plain:
  "is_digit m1 \<Longrightarrow> is_digit m2 \<Longrightarrow> is_digit s1 \<Longrightarrow> is_digit s2 \<Longrightarrow>
   match_tag (CHR ''['' # m1 # m2 # CHR '':'' # s1 # s2 # CHR '']'' # rest) =
     Some (([m1, m2], [s1, s2], None), rest)"
  by (simp add: match_tag_def lit_def digits_def fraction_options_def)

lemma match_tenths:
  "is_digit m1 \<Longrightarrow> is_digit m2 \<Longrightarrow> is_digit s1 \<Longrightarrow> is_digit s2 \<Longrightarrow> is_digit f1 \<Longrightarrow>
   match_tag (CHR ''['' # m1 # m2 # CHR '':'' # s1 # s2 # CHR ''.'' # f1 # CHR '']'' # rest) =
     Some (([m1, m2], [s1, s2], Some [f1]), rest)"
  by (simp add: match_tag_def lit_def digits_def fraction_options_def not_digit_bracket
      is_digit_not_special)

lemma match_hundredths:
  "is_digit m1 \<Longrightarrow> is_digit m2 \<Longrightarrow> is_digit s1 \<Longrightarrow> is_digit s2 \<Longrightarrow> is_digit f1 \<Longrightarrow>
   is_digit f2 \<Longrightarrow>
   match_tag (CHR ''['' # m1 # m2 # CHR '':'' # s1 # s2 # CHR ''.'' # f1 # f2 # CHR '']'' # rest) =
     Some (([m1, m2], [s1, s2], Some [f1, f2]), rest)"
  by (simp add: match_tag_def lit_def digits_def fraction_options_def)

lemma finditer_Nil: "finditer [] = []"
  by (subst finditer.simps) (simp add: match_tag_def lit_def)

lemma timestamp_sub_Nil: "timestamp_sub [] = []"
  by (subst timestamp_sub.simps) (simp add: match_tag_def lit_def)

lemma finditer_match: "match_tag s = Some (m, rest) \<Longrightarrow> finditer s = m # finditer rest"
  by (subst finditer.simps) simp

lemma timestamp_sub_match: "match_tag s = Some (m, rest) \<Longrightarrow> timestamp_sub s = timestamp_sub rest"
  by (subst timestamp_sub.simps) simp

lemma parse_lrc_single_tag:
  assumes m: "match_tag s = Some (m, [])" and nl: "CHR 0x0A \<notin> set s" and cr: "CHR 0x0D \<notin> set s"
  shows "parse_lrc s = [\<lparr>t = tag_time m, text = []\<rparr>]"
proof -
  from m have ne: "s \<noteq> []" by (auto simp add: match_tag_def lit_def)
  have "parse_unsorted s = parse_line s"
    by (simp add: parse_unsorted_def universal_newlines_id [OF cr] file_lines_one [OF ne nl])
  also have "\<dots> = [\<lparr>t = tag_time m, text = []\<rparr>]"
    by (simp add: parse_line_def rstrip_newline_id [OF nl] finditer_match [OF m]
        timestamp_sub_match [OF m] finditer_Nil timestamp_sub_Nil strip_def)
  finally show ?thesis by (simp add: parse_lrc_def)
qed

text \<open>
  A match never reaches over an opening bracket, so the matches of a line are those
  before a bracket followed by those from the bracket on.
\<close>

lemma lit_append:
  "c \<noteq> CHR ''['' \<or> p \<noteq> [] \<Longrightarrow>
   lit c (p @ CHR ''['' # x) = map_option (\<lambda>r. r @ CHR ''['' # x) (lit c p)"
  by (cases p) (auto simp add: lit_def)

lemma not_digit_open: "\<not> is_digit (CHR ''['')"
  by (simp add: is_digit_def)

lemma digits_append:
  "digits n (p @ CHR ''['' # x) = map_option (\<lambda>(d, r). (d, r @ CHR ''['' # x)) (digits n p)"
proof (cases "n \<le> length p")
  case True
  then show ?thesis by (simp add: digits_def)
next
  case False
  then have "CHR ''['' \<in> set (take n (p @ CHR ''['' # x))"
    by (cases "n - length p") auto
  then have "\<not> list_all is_digit (take n (p @ CHR ''['' # x))"
    using not_digit_open by (auto simp add: list_all_iff)
  with False show ?thesis by (simp add: digits_def)
qed

lemma fraction_options_append:
  "fraction_options (p @ CHR ''['' # x) =
     map (\<lambda>(cc, r). (cc, r @ CHR ''['' # x)) (fraction_options p)"
  by (simp add: fraction_options_def lit_append digits_append split: option.splits)

lemma first_closed_append:
  "first_closed (map (\<lambda>(cc, r). (cc, r @ CHR ''['' # x)) alts) =
     map_option (\<lambda>(cc, r). (cc, r @ CHR ''['' # x)) (first_closed alts)"
  by (induction alts rule: first_closed.induct) (auto simp add: lit_append split: option.splits)

lemma match_tag_append:
  "p \<noteq> [] \<Longrightarrow>
   match_tag (p @ CHR ''['' # x) = map_option (\<lambda>(m, r). (m, r @ CHR ''['' # x)) (match_tag p)"
  by (simp add: match_tag_def lit_append digits_append fraction_options_append
      first_closed_append split: option.splits)

lemma finditer_append: "finditer (p @ CHR ''['' # x) = finditer p @ finditer (CHR ''['' # x)"
proof (induction p rule: length_induct)
  case (1 p)
  show ?case
  proof (cases p)
    case Nil
    then show ?thesis by (simp add: finditer_Nil)
  next
    case (Cons c cs)
    then have ne: "p \<noteq> []" by simp
    show ?thesis
    proof (cases "match_tag p")
      case None
      with match_tag_append [OF ne, of x] have "match_tag (p @ CHR ''['' # x) = None" by simp
      then have "finditer (p @ CHR ''['' # x) = finditer (cs @ CHR ''['' # x)"
        using Cons by (subst finditer.simps) simp
      moreover have "finditer p = finditer cs"
        using None Cons by (subst finditer.simps) simp
      moreover have "finditer (cs @ CHR ''['' # x) = finditer cs @ finditer (CHR ''['' # x)"
        using "1.IH" Cons by simp
      ultimately show ?thesis by simp
    next
      case (Some a)
      then obtain m r where a: "match_tag p = Some (m, r)" by (cases a) auto
      with match_tag_append [OF ne, of x]
      have "match_tag (p @ CHR ''['' # x) = Some (m, r @ CHR ''['' # x)" by simp
      then have "finditer (p @ CHR ''['' # x) = m # finditer (r @ CHR ''['' # x)"
        by (rule finditer_match)
      moreover have "finditer p = m # finditer r" using a by (rule finditer_match)
      moreover have "finditer (r @ CHR ''['' # x) = finditer r @ finditer (CHR ''['' # x)"
        using "1.IH" match_tag_shorter [OF a] by simp
      ultimately show ?thesis by simp
    qed
  qed
qed

lemma digit_char_props:
  "n \<le> 9 \<Longrightarrow> is_digit (digit_char n) \<and> digit_value (digit_char n) = int n"
  by (simp add: digit_char_def is_digit_def digit_value_def)

lemma digit_value_zero: "digit_value (CHR ''0'') = 0"
  by (simp add: digit_value_def)

lemma float_of_int_small: "\<bar>n\<bar> < 2 ^ 53 \<Longrightarrow> float_of_int n = real_of_int n"
  by (simp add: float_of_int_def round_double_of_int)

lemma rstrip_newline_append:
  "c \<noteq> CHR 0x0A \<Longrightarrow> rstrip_newline (xs @ c # ys) = xs @ c # rstrip_newline ys"
  by (simp add: rstrip_newline_def dropWhile_append)

lemma tag_time_plain:
  assumes "a \<le> 9" "b \<le> 9" "c \<le> 9" "d \<le> 9"
  shows "tag_time ([digit_char a, digit_char b], [digit_char c, digit_char d], None) =
     real ((10 * a + b) * 60 + (10 * c + d))"
proof -
  define w :: int where "w = (10 * int a + int b) * 60 + (10 * int c + int d)"
  have wb: "\<bar>w\<bar> < 2 ^ 53" using assms by (simp add: w_def)
  have "tag_time ([digit_char a, digit_char b], [digit_char c, digit_char d], None) =
      fadd (float_of_int w) (fdiv (float_of_int 0) 10)"
    using assms by (simp add: tag_time_def py_int_def digit_char_props w_def digit_value_zero)
  also have "\<dots> = round_double (real_of_int w)"
    using wb by (simp add: float_of_int_small fdiv_def fadd_def round_double_def)
  also have "\<dots> = real_of_int w" using wb by (rule round_double_of_int)
  finally show ?thesis by (simp add: w_def)
qed

lemma tag_time_tenths:
  assumes "a \<le> 9" "b \<le> 9" "c \<le> 9" "d \<le> 9" "f \<le> 9"
  shows "tag_time ([digit_char a, digit_char b], [digit_char c, digit_char d], Some [digit_char f]) =
     round_double (real ((10 * a + b) * 60 + (10 * c + d)) + round_double (real f / 10))"
proof -
  define w :: int where "w = (10 * int a + int b) * 60 + (10 * int c + int d)"
  have wb: "\<bar>w\<bar> < 2 ^ 53" using assms by (simp add: w_def)
  have fb: "\<bar>int f\<bar> < 2 ^ 53" using assms by simp
  have "tag_time ([digit_char a, digit_char b], [digit_char c, digit_char d], Some [digit_char f]) =
      fadd (float_of_int w) (fdiv (float_of_int (int f)) 10)"
    using assms by (simp add: tag_time_def py_int_def digit_char_props w_def)
  also have "\<dots> = round_double (real_of_int w + round_double (real f / 10))"
    using float_of_int_small [OF wb] float_of_int_small [OF fb] by (simp add: fdiv_def fadd_def)
  finally show ?thesis by (simp add: w_def)
qed

lemma tag_time_hundredths:
  assumes "a \<le> 9" "b \<le> 9" "c \<le> 9" "d \<le> 9" "f \<le> 9" "g \<le> 9"
  shows "tag_time ([digit_char a, digit_char b], [digit_char c, digit_char d],
           Some [digit_char f, digit_char g]) =
     round_double (real ((10 * a + b) * 60 + (10 * c + d)) + round_double (real (10 * f + g) / 100))"
proof -
  define w :: int where "w = (10 * int a + int b) * 60 + (10 * int c + int d)"
  define h :: int where "h = 10 * int f + int g"
  have wb: "\<bar>w\<bar> < 2 ^ 53" using assms by (simp add: w_def)
  have hb: "\<bar>h\<bar> < 2 ^ 53" using assms by (simp add: h_def)
  have "tag_time ([digit_char a, digit_char b], [digit_char c, digit_char d],
           Some [digit_char f, digit_char g]) =
      fadd (float_of_int w) (fdiv (float_of_int h) 100)"
    using assms by (simp add: tag_time_def py_int_def digit_char_props w_def h_def)
  also have "\<dots> = round_double (real_of_int w + round_double (real_of_int h / 100))"
    using float_of_int_small [OF wb] float_of_int_small [OF hb] by (simp add: fdiv_def fadd_def)
  finally show ?thesis by (simp add: w_def h_def)
qed

lemma fraction_sum_error:
  assumes "0 \<le> w" "w \<le> 6039" "0 \<le> q" "q < 1"
  shows "\<bar>round_double (w + round_double q) - (w + q)\<bar> \<le> 2 powi (- 40)"
proof -
  have "\<bar>q\<bar> < 2 powi (- 1 + 1)" using assms by simp
  from round_double_error [OF this] have e1: "\<bar>round_double q - q\<bar> \<le> 2 powi (- 54)" by simp
  have "(2::real) powi (- 54) \<le> 1" by (simp add: power_int_minus field_simps)
  with e1 have "\<bar>round_double q - q\<bar> \<le> 1" by linarith
  with assms have "\<bar>w + round_double q\<bar> < 8192" by linarith
  then have "\<bar>w + round_double q\<bar> < 2 powi (12 + 1)" by simp
  from round_double_error [OF this]
  have e2: "\<bar>round_double (w + round_double q) - (w + round_double q)\<bar> \<le> 2 powi (- 41)" by simp
  have "(2::real) powi (- 54) \<le> 2 powi (- 41)" by (intro power_int_increasing) simp_all
  moreover have "(2::real) powi (- 41) + 2 powi (- 41) = 2 powi (- 40)"
    by (simp add: power_int_minus field_simps)
  ultimately show ?thesis using e1 e2 by linarith
qed

lemma rstrip_newline_tag:
  "tag \<noteq> [] \<Longrightarrow> last tag \<noteq> CHR 0x0A \<Longrightarrow>
   rstrip_newline (pre @ tag @ rest) = pre @ tag @ rstrip_newline rest"
proof -
  assume ne: "tag \<noteq> []" and l: "last tag \<noteq> CHR 0x0A"
  have "pre @ tag @ rest = (pre @ butlast tag) @ last tag # rest"
    using ne by simp
  moreover have "rstrip_newline ((pre @ butlast tag) @ last tag # rest) =
      (pre @ butlast tag) @ last tag # rstrip_newline rest"
    using l by (rule rstrip_newline_append)
  ultimately have "rstrip_newline (pre @ tag @ rest) =
      (pre @ butlast tag) @ last tag # rstrip_newline rest"
    by (simp only:)
  then show ?thesis using ne by simp
qed

lemma parse_line_times: "map t (parse_line raw) = map tag_time (finditer (rstrip_newline raw))"
  by (simp add: parse_line_def Let_def comp_def)

lemma parse_line_tag:
  assumes "match_tag (tag @ rest') = Some (m, rest')" "tag \<noteq> []" "last tag \<noteq> CHR 0x0A"
    "hd tag = CHR ''[''" "rest' = rstrip_newline rest"
  shows "map t (parse_line (pre @ tag @ rest)) =
     map tag_time (finditer pre) @ tag_time m # map tag_time (finditer (rstrip_newline rest))"
proof -
  obtain x where x: "tag = CHR ''['' # x" using assms(2,4) by (cases tag) auto
  have "finditer (pre @ tag @ rest') = finditer pre @ finditer (tag @ rest')"
    using finditer_append [of pre "x @ rest'"] by (simp add: x)
  also have "finditer (tag @ rest') = m # finditer rest'"
    using assms(1) by (rule finditer_match)
  finally show ?thesis
    by (simp add: parse_line_times rstrip_newline_tag [OF assms(2,3)] assms(5))
qed

text \<open>
  A tag anywhere in a file lies within one line of it: the translation of the newlines
  and the split into lines leave it whole.
\<close>

lemma universal_newlines_Cons:
  "a \<noteq> CHR 0x0D \<Longrightarrow> universal_newlines (a # cs) = a # universal_newlines cs"
  by (cases cs) simp_all

lemma universal_newlines_tag:
  "CHR 0x0D \<notin> set tag \<Longrightarrow> universal_newlines (tag @ a) = tag @ universal_newlines a"
  by (induction tag) (auto simp add: universal_newlines_Cons universal_newlines_Cons [OF not_sym])

lemma universal_newlines_before:
  "c \<noteq> CHR 0x0A \<Longrightarrow> \<exists>b'. universal_newlines (b @ c # x) = b' @ universal_newlines (c # x)"
proof (induction b rule: universal_newlines.induct)
  case (1 a b cs)
  consider (crlf) "a = CHR 0x0D \<and> b = CHR 0x0A"
    | (cr) "\<not> (a = CHR 0x0D \<and> b = CHR 0x0A)" "a = CHR 0x0D"
    | (other) "\<not> (a = CHR 0x0D \<and> b = CHR 0x0A)" "a \<noteq> CHR 0x0D"
    by blast
  then show ?case
  proof cases
    case crlf
    from "1.IH"(1) [OF crlf "1.prems"] obtain b' where
      "universal_newlines (cs @ c # x) = b' @ universal_newlines (c # x)" by blast
    with crlf have "universal_newlines ((a # b # cs) @ c # x) =
        (CHR 0x0A # b') @ universal_newlines (c # x)" by simp
    then show ?thesis by blast
  next
    case cr
    from "1.IH"(2) [OF cr "1.prems"] obtain b' where
      "universal_newlines ((b # cs) @ c # x) = b' @ universal_newlines (c # x)" by blast
    with cr have "universal_newlines ((a # b # cs) @ c # x) =
        (CHR 0x0A # b') @ universal_newlines (c # x)" by simp
    then show ?thesis by blast
  next
    case other
    from "1.IH"(3) [OF other "1.prems"] obtain b' where
      "universal_newlines ((b # cs) @ c # x) = b' @ universal_newlines (c # x)" by blast
    with other have "universal_newlines ((a # b # cs) @ c # x) =
        (a # b') @ universal_newlines (c # x)" by simp
    then show ?thesis by blast
  qed
next
  case (2 a)
  show ?case
  proof (cases "a = CHR 0x0D")
    case True
    with 2 have "universal_newlines ([a] @ c # x) = [CHR 0x0A] @ universal_newlines (c # x)"
      by simp
    then show ?thesis by blast
  next
    case False
    then have "universal_newlines ([a] @ c # x) = [a] @ universal_newlines (c # x)"
      by (simp add: universal_newlines_Cons)
    then show ?thesis by blast
  qed
next
  case 3
  have "universal_newlines ([] @ c # x) = [] @ universal_newlines (c # x)" by simp
  then show ?case by blast
qed

lemma file_lines_tag:
  "tag \<noteq> [] \<Longrightarrow> CHR 0x0A \<notin> set tag \<Longrightarrow> \<exists>r ls. file_lines (tag @ a) = (tag @ r) # ls"
proof (induction tag)
  case Nil
  then show ?case by simp
next
  case (Cons c tag)
  show ?case
  proof (cases "tag = []")
    case True
    with Cons.prems show ?thesis by (cases "file_lines a") auto
  next
    case False
    with Cons obtain r ls where "file_lines (tag @ a) = (tag @ r) # ls" by auto
    with Cons.prems show ?thesis by auto
  qed
qed

lemma file_lines_before:
  "tag \<noteq> [] \<Longrightarrow> CHR 0x0A \<notin> set tag \<Longrightarrow>
   \<exists>l \<in> set (file_lines (b @ tag @ a)). \<exists>p r. l = p @ tag @ r"
proof (induction b)
  case Nil
  from file_lines_tag [OF Nil, of a] obtain r ls where "file_lines (tag @ a) = (tag @ r) # ls"
    by blast
  then show ?case by (auto intro: exI [of _ "[]"])
next
  case (Cons c b)
  from Cons obtain l p r where l: "l \<in> set (file_lines (b @ tag @ a))" "l = p @ tag @ r"
    by blast
  show ?case
  proof (cases "c = CHR 0x0A")
    case True
    with l(1) have "l \<in> set (file_lines ((c # b) @ tag @ a))" by simp
    with l(2) show ?thesis by blast
  next
    case False
    from l(1) obtain l0 ls0 where f: "file_lines (b @ tag @ a) = l0 # ls0"
      by (cases "file_lines (b @ tag @ a)") auto
    show ?thesis
    proof (cases "l = l0")
      case True
      with False f l(2) have "(c # p) @ tag @ r \<in> set (file_lines ((c # b) @ tag @ a))" by simp
      then show ?thesis by blast
    next
      case False
      with l f have "l \<in> set ls0" by simp
      with \<open>c \<noteq> CHR 0x0A\<close> f have "l \<in> set (file_lines ((c # b) @ tag @ a))" by simp
      with l(2) show ?thesis by blast
    qed
  qed
qed

lemma tagged_line:
  assumes "tag \<noteq> []" "CHR 0x0A \<notin> set tag" "CHR 0x0D \<notin> set tag"
  shows "\<exists>l \<in> set (file_lines (universal_newlines (b @ tag @ a))). \<exists>p r. l = p @ tag @ r"
proof -
  obtain c tg where tag: "tag = c # tg" using assms(1) by (cases tag) auto
  with assms(2) have "c \<noteq> CHR 0x0A" by auto
  from universal_newlines_before [OF this, of b "tg @ a"] obtain b' where
    "universal_newlines (b @ tag @ a) = b' @ universal_newlines (tag @ a)" by (auto simp add: tag)
  then have "universal_newlines (b @ tag @ a) = b' @ tag @ universal_newlines a"
    by (simp add: universal_newlines_tag [OF assms(3)])
  with file_lines_before [OF assms(1,2), of b' "universal_newlines a"] show ?thesis by simp
qed

lemma parse_lrc_contains:
  assumes m: "\<And>r. match_tag (tag @ r) = Some (m, r)"
    and ne: "tag \<noteq> []" and hd: "hd tag = CHR ''[''"
    and nl: "CHR 0x0A \<notin> set tag" and cr: "CHR 0x0D \<notin> set tag"
  shows "tag_time m \<in> t ` set (parse_lrc (lead @ tag @ trail))"
proof -
  from tagged_line [OF ne nl cr, of lead trail] obtain l p r where
    l: "l \<in> set (file_lines (universal_newlines (lead @ tag @ trail)))" "l = p @ tag @ r"
    by blast
  have "last tag \<noteq> CHR 0x0A" using ne nl last_in_set [OF ne] by metis
  from parse_line_tag [where pre = p and rest = r, OF m ne this hd refl]
  have "tag_time m \<in> set (map t (parse_line l))" by (simp add: l(2))
  then have "tag_time m \<in> t ` set (parse_line l)" by (simp only: set_map)
  with l(1) have "tag_time m \<in> t ` set (parse_unsorted (lead @ tag @ trail))"
    by (auto simp add: parse_unsorted_def)
  then show ?thesis by (simp add: parse_lrc_def)
qed

section \<open>Claims about the parser\<close>

text \<open>
  C4, as stated (the time is exactly \<open>MM * 60 + SS + FF / 100\<close>), fails: for the tag
  \<open>[00:01.36]\<close> the parser computes the double \<open>1.3599999999999999\<close>, which is not
  \<open>1 + 36 / 100\<close>.
\<close>

theorem tag_time_exact_counterexample:
  "\<not> (map t (parse_lrc ''[00:01.36]'') = [0 * 60 + 1 + 36 / 100])"
  by code_simp

text \<open>
  C4, amended. For a tag \<open>[MM:SS]\<close>, \<open>[MM:SS.F]\<close> or \<open>[MM:SS.FF]\<close> of the decimal
  digits \<open>0 .. 9\<close> the parser computes the time as the float expression
  \<open>MM * 60 + SS + frac\<close> with \<open>frac = F / 10.0\<close> or \<open>FF / 100.0\<close>: exactly
  \<open>MM * 60 + SS\<close> for a tag without fraction, and otherwise the rounded sum of
  \<open>MM * 60 + SS\<close> and the rounded quotient, which lies within \<open>2 ^ (-40)\<close> of
  \<open>MM * 60 + SS + F / 10\<close> (or \<open>FF / 100\<close>). This is the whole result of \<open>parse_lrc\<close>
  on a file that holds the tag alone, the time of the match at the tag in any line,
  whatever stands before and behind it, and one of the times of the track for any file
  that contains the tag.
\<close>

theorem tag_time_rounded:
  "a \<le> 9 \<and> b \<le> 9 \<and> c \<le> 9 \<and> d \<le> 9 \<and> f \<le> 9 \<and> g \<le> 9 \<longrightarrow>
   (let stem = [CHR ''['', digit_char a, digit_char b, CHR '':'', digit_char c, digit_char d];
        plain = stem @ [CHR '']''];
        tenths = stem @ [CHR ''.'', digit_char f, CHR '']''];
        hundredths = stem @ [CHR ''.'', digit_char f, digit_char g, CHR '']''];
        whole = real ((10 * a + b) * 60 + (10 * c + d));
        t1 = round_double (whole + round_double (real f / 10));
        t2 = round_double (whole + round_double (real (10 * f + g) / 100))
    in parse_lrc plain = [\<lparr>t = whole, text = []\<rparr>] \<and>
       parse_lrc tenths = [\<lparr>t = t1, text = []\<rparr>] \<and>
       parse_lrc hundredths = [\<lparr>t = t2, text = []\<rparr>] \<and>
       map t (parse_line (pre @ plain @ rest)) =
         map tag_time (finditer pre) @ whole # map tag_time (finditer (rstrip_newline rest)) \<and>
       map t (parse_line (pre @ tenths @ rest)) =
         map tag_time (finditer pre) @ t1 # map tag_time (finditer (rstrip_newline rest)) \<and>
       map t (parse_line (pre @ hundredths @ rest)) =
         map tag_time (finditer pre) @ t2 # map tag_time (finditer (rstrip_newline rest)) \<and>
       whole \<in> t ` set (parse_lrc (lead @ plain @ trail)) \<and>
       t1 \<in> t ` set (parse_lrc (lead @ tenths @ trail)) \<and>
       t2 \<in> t ` set (parse_lrc (lead @ hundredths @ trail)) \<and>
       \<bar>t1 - (whole + real f / 10)\<bar> \<le> 2 powi (- 40) \<and>
       \<bar>t2 - (whole + real (10 * f + g) / 100)\<bar> \<le> 2 powi (- 40))"
proof (intro impI)
  assume dg: "a \<le> 9 \<and> b \<le> 9 \<and> c \<le> 9 \<and> d \<le> 9 \<and> f \<le> 9 \<and> g \<le> 9"
  then have a: "a \<le> 9" and b: "b \<le> 9" and c: "c \<le> 9" and d: "d \<le> 9" and f: "f \<le> 9"
    and g: "g \<le> 9" by simp_all
  note da = digit_char_props [OF a, THEN conjunct1] and db = digit_char_props [OF b, THEN conjunct1]
    and dc = digit_char_props [OF c, THEN conjunct1] and dd = digit_char_props [OF d, THEN conjunct1]
    and df = digit_char_props [OF f, THEN conjunct1] and dg' = digit_char_props [OF g, THEN conjunct1]
  note sp = is_digit_not_special [OF da] is_digit_not_special [OF db] is_digit_not_special [OF dc]
    is_digit_not_special [OF dd] is_digit_not_special [OF df] is_digit_not_special [OF dg']
  define stem where
    "stem = [CHR ''['', digit_char a, digit_char b, CHR '':'', digit_char c, digit_char d]"
  define plain where "plain = stem @ [CHR '']'']"
  define tenths where "tenths = stem @ [CHR ''.'', digit_char f, CHR '']'']"
  define hundredths where "hundredths = stem @ [CHR ''.'', digit_char f, digit_char g, CHR '']'']"
  define whole where "whole = real ((10 * a + b) * 60 + (10 * c + d))"
  define t1 where "t1 = round_double (whole + round_double (real f / 10))"
  define t2 where "t2 = round_double (whole + round_double (real (10 * f + g) / 100))"
  note defs = stem_def plain_def tenths_def hundredths_def
  have m1: "match_tag (plain @ r) = Some (([digit_char a, digit_char b], [digit_char c, digit_char d], None), r)" for r
    using match_plain [OF da db dc dd, of r] by (simp add: defs)
  have m2: "match_tag (tenths @ r) =
      Some (([digit_char a, digit_char b], [digit_char c, digit_char d], Some [digit_char f]), r)" for r
    using match_tenths [OF da db dc dd df, of r] by (simp add: defs)
  have m3: "match_tag (hundredths @ r) =
      Some (([digit_char a, digit_char b], [digit_char c, digit_char d],
             Some [digit_char f, digit_char g]), r)" for r
    using match_hundredths [OF da db dc dd df dg', of r] by (simp add: defs)
  have tt1: "tag_time ([digit_char a, digit_char b], [digit_char c, digit_char d], None) = whole"
    unfolding whole_def by (rule tag_time_plain [OF a b c d])
  have tt2: "tag_time ([digit_char a, digit_char b], [digit_char c, digit_char d], Some [digit_char f]) = t1"
    unfolding t1_def whole_def by (rule tag_time_tenths [OF a b c d f])
  have tt3: "tag_time ([digit_char a, digit_char b], [digit_char c, digit_char d],
      Some [digit_char f, digit_char g]) = t2"
    unfolding t2_def whole_def by (rule tag_time_hundredths [OF a b c d f g])
  have p1: "parse_lrc plain = [\<lparr>t = whole, text = []\<rparr>]"
    using parse_lrc_single_tag [OF m1 [of "[]", simplified]] sp by (auto simp add: defs tt1)
  have p2: "parse_lrc tenths = [\<lparr>t = t1, text = []\<rparr>]"
    using parse_lrc_single_tag [OF m2 [of "[]", simplified]] sp by (auto simp add: defs tt2)
  have p3: "parse_lrc hundredths = [\<lparr>t = t2, text = []\<rparr>]"
    using parse_lrc_single_tag [OF m3 [of "[]", simplified]] sp by (auto simp add: defs tt3)
  have l1: "map t (parse_line (pre @ plain @ rest)) =
      map tag_time (finditer pre) @ whole # map tag_time (finditer (rstrip_newline rest))"
    using parse_line_tag [where pre = pre and rest = rest, OF m1 _ _ _ refl] by (simp add: defs tt1)
  have l2: "map t (parse_line (pre @ tenths @ rest)) =
      map tag_time (finditer pre) @ t1 # map tag_time (finditer (rstrip_newline rest))"
    using parse_line_tag [where pre = pre and rest = rest, OF m2 _ _ _ refl] by (simp add: defs tt2)
  have l3: "map t (parse_line (pre @ hundredths @ rest)) =
      map tag_time (finditer pre) @ t2 # map tag_time (finditer (rstrip_newline rest))"
    using parse_line_tag [where pre = pre and rest = rest, OF m3 _ _ _ refl] by (simp add: defs tt3)
  have c1: "whole \<in> t ` set (parse_lrc (lead @ plain @ trail))"
    using parse_lrc_contains [OF m1, of lead trail] sp by (auto simp add: defs tt1)
  have c2: "t1 \<in> t ` set (parse_lrc (lead @ tenths @ trail))"
    using parse_lrc_contains [OF m2, of lead trail] sp by (auto simp add: defs tt2)
  have c3: "t2 \<in> t ` set (parse_lrc (lead @ hundredths @ trail))"
    using parse_lrc_contains [OF m3, of lead trail] sp by (auto simp add: defs tt3)
  have wr: "0 \<le> whole" "whole \<le> 6039"
    using a b c d by (simp_all add: whole_def)
  have e1: "\<bar>t1 - (whole + real f / 10)\<bar> \<le> 2 powi (- 40)"
    unfolding t1_def using f by (intro fraction_sum_error wr) simp_all
  have e2: "\<bar>t2 - (whole + real (10 * f + g) / 100)\<bar> \<le> 2 powi (- 40)"
    unfolding t2_def using f g by (intro fraction_sum_error wr) simp_all
  show "let stem = [CHR ''['', digit_char a, digit_char b, CHR '':'', digit_char c, digit_char d];
        plain = stem @ [CHR '']''];
        tenths = stem @ [CHR ''.'', digit_char f, CHR '']''];
        hundredths = stem @ [CHR ''.'', digit_char f, digit_char g, CHR '']''];
        whole = real ((10 * a + b) * 60 + (10 * c + d));
        t1 = round_double (whole + round_double (real f / 10));
        t2 = round_double (whole + round_double (real (10 * f + g) / 100))
    in parse_lrc plain = [\<lparr>t = whole, text = []\<rparr>] \<and>
       parse_lrc tenths = [\<lparr>t = t1, text = []\<rparr>] \<and>
       parse_lrc hundredths = [\<lparr>t = t2, text = []\<rparr>] \<and>
       map t (parse_line (pre @ plain @ rest)) =
         map tag_time (finditer pre) @ whole # map tag_time (finditer (rstrip_newline rest)) \<and>
       map t (parse_line (pre @ tenths @ rest)) =
         map tag_time (finditer pre) @ t1 # map tag_time (finditer (rstrip_newline rest)) \<and>
       map t (parse_line (pre @ hundredths @ rest)) =
         map tag_time (finditer pre) @ t2 # map tag_time (finditer (rstrip_newline rest)) \<and>
       whole \<in> t ` set (parse_lrc (lead @ plain @ trail)) \<and>
       t1 \<in> t ` set (parse_lrc (lead @ tenths @ trail)) \<and>
       t2 \<in> t ` set (parse_lrc (lead @ hundredths @ trail)) \<and>
       \<bar>t1 - (whole + real f / 10)\<bar> \<le> 2 powi (- 40) \<and>
       \<bar>t2 - (whole + real (10 * f + g) / 100)\<bar> \<le> 2 powi (- 40)"
    unfolding Let_def
    using p1 p2 p3 l1 l2 l3 c1 c2 c3 e1 e2
    unfolding stem_def plain_def tenths_def hundredths_def whole_def t1_def t2_def
    by blast
qed

lemma digit_chars:
  "digit_char 0 = CHR ''0''" "digit_char 2 = CHR ''2''" "digit_char 3 = CHR ''3''"
  "digit_char 4 = CHR ''4''" "digit_char 5 = CHR ''5''" "digit_char 6 = CHR ''6''"
  by code_simp+

theorem tag_time_rounded_witness:
  "(0::nat) \<le> 9 \<and> (2::nat) \<le> 9 \<and> (3::nat) \<le> 9 \<and> (4::nat) \<le> 9 \<and> (5::nat) \<le> 9 \<and> (6::nat) \<le> 9 \<and>
   parse_lrc ''[02:34]'' = [\<lparr>t = 154, text = []\<rparr>] \<and>
   parse_lrc ''[02:34.5]'' = [\<lparr>t = round_double (154 + round_double (5 / 10)), text = []\<rparr>] \<and>
   parse_lrc ''[02:34.56]'' = [\<lparr>t = round_double (154 + round_double (56 / 100)), text = []\<rparr>] \<and>
   \<bar>round_double (154 + round_double (56 / 100)) - (154 + 56 / 100)\<bar> \<le> 2 powi (- 40)"
  using tag_time_rounded [of 0 2 3 4 5 6 "[]" "[]"]
  by (simp add: Let_def digit_chars)

text \<open>
  C5. Whatever the content of the file, the list \<open>parse_lrc\<close> returns is sorted
  ascending by time, and the lines of any one time stand in the order in which they
  were parsed.
\<close>

theorem parse_lrc_sorted_stable:
  "sorted (map t (parse_lrc content)) \<and>
   (\<forall>k. filter (\<lambda>l. t l = k) (parse_lrc content) = filter (\<lambda>l. t l = k) (parse_unsorted content))"
  by (simp add: parse_lrc_def sort_key_stable)

section \<open>Lemmas about the session\<close>

lemma find_current_index_returns:
  "\<exists>r. find_current_index ls tm = Inr r \<and> - 1 \<le> r \<and> r \<le> int (length ls) - 1"
proof -
  obtain r where "find_current_index_loop ls tm 0 (int (length ls) - 1) (- 1) = Inr r"
    "r = - 1 \<or> (0 \<le> r \<and> r \<le> int (length ls) - 1)"
    using loop_result [of 0 "int (length ls) - 1" ls tm "- 1"] by auto
  then show ?thesis
    unfolding find_current_index_def by auto
qed

lemma seen_fields:
  "start (seen s ob) = start s" "offset (seen s ob) = offset s"
  "last_stamp (seen s ob) = last_stamp s" "lyrics (seen s ob) = lyrics s"
  by (simp_all add: seen_def split: sum.splits)

lemma tick_eq:
  "tick s ob =
     (case handle_key (key_code (getch ob)) (seen s ob) of
        None \<Rightarrow> Break_quit (seen s ob)
      | Some s2 \<Rightarrow> if finished s ob then Break_finished s2 else Continue s2)"
proof -
  obtain idx where "find_current_index (lyrics s) (elapsed s (perf_counter ob)) = Inr idx"
    using find_current_index_returns by blast
  then have "tick s ob =
      (case handle_key (key_code (getch ob))
              (if idx \<noteq> active_idx s then s\<lparr>active_idx := idx\<rparr> else s) of
         None \<Rightarrow> Break_quit (if idx \<noteq> active_idx s then s\<lparr>active_idx := idx\<rparr> else s)
       | Some s2 \<Rightarrow> if finished s ob then Break_finished s2 else Continue s2)"
    and "seen s ob = (if idx \<noteq> active_idx s then s\<lparr>active_idx := idx\<rparr> else s)"
    by (simp_all add: tick_def seen_def key_code_def finished_def Let_def split: option.splits)
  then show ?thesis by (auto split: option.splits)
qed

lemma handle_key_other:
  "ch \<noteq> ord_q \<Longrightarrow> ch \<noteq> ESC \<Longrightarrow> ch \<noteq> KEY_UP \<Longrightarrow> ch \<noteq> KEY_DOWN \<Longrightarrow> handle_key ch s = Some s"
  by (simp add: handle_key_def)

lemma handle_key_up: "handle_key KEY_UP s = Some (nudge step_0_05 s)"
  by (simp add: handle_key_def nudge_def KEY_UP_def ord_q_def ESC_def)

lemma handle_key_down: "handle_key KEY_DOWN s = Some (nudge (- step_0_05) s)"
  by (simp add: handle_key_def nudge_def KEY_UP_def KEY_DOWN_def ord_q_def ESC_def fadd_def fsub_def)

lemma nudge_pow_fields:
  "start ((nudge d ^^ n) s) = ((\<lambda>x. fsub x d) ^^ n) (start s)"
  "offset ((nudge d ^^ n) s) = ((\<lambda>x. fadd x d) ^^ n) (offset s)"
  by (induction n) (simp_all add: nudge_def)

lemma main_loop_key_up:
  "\<forall>ob \<in> set obs. getch ob = Got KEY_UP \<and> poll ob = None \<Longrightarrow>
   \<exists>s'. main_loop s obs = (length obs, Continue s') \<and>
        offset s' = offset ((nudge step_0_05 ^^ length obs) s) \<and>
        start s' = start ((nudge step_0_05 ^^ length obs) s)"
proof (induction obs arbitrary: s)
  case Nil
  then show ?case by simp
next
  case (Cons ob obs)
  have tk: "tick s ob = Continue (nudge step_0_05 (seen s ob))"
    using Cons.prems by (simp add: tick_eq key_code_def handle_key_up finished_def)
  from Cons.IH [of "nudge step_0_05 (seen s ob)"] Cons.prems obtain s' where
    s': "main_loop (nudge step_0_05 (seen s ob)) obs = (length obs, Continue s')"
    "offset s' = offset ((nudge step_0_05 ^^ length obs) (nudge step_0_05 (seen s ob)))"
    "start s' = start ((nudge step_0_05 ^^ length obs) (nudge step_0_05 (seen s ob)))"
    by auto
  have "offset s' = offset ((nudge step_0_05 ^^ length (ob # obs)) s)"
    using s'(2) by (simp add: nudge_pow_fields funpow_swap1 nudge_def seen_fields)
  moreover have "start s' = start ((nudge step_0_05 ^^ length (ob # obs)) s)"
    using s'(3) by (simp add: nudge_pow_fields funpow_swap1 nudge_def seen_fields)
  moreover have "main_loop s (ob # obs) = (length (ob # obs), Continue s')"
    using tk s'(1) by simp
  ultimately show ?case by blast
qed

lemma tick_finished:
  "tick s ob = Break_finished s' \<Longrightarrow>
   poll ob \<noteq> None \<and> fadd (last_stamp s) 1 < elapsed s (perf_counter ob)"
  by (auto simp add: tick_eq finished_def split: option.splits if_splits)

lemma main_loop_alive:
  "\<forall>ob \<in> set obs. poll ob = None \<Longrightarrow> snd (main_loop s obs) \<noteq> Break_finished s'"
proof (induction obs arbitrary: s)
  case Nil
  then show ?case by simp
next
  case (Cons ob obs)
  show ?case
  proof (cases "tick s ob")
    case (Continue s1)
    with Cons.IH [of s1] Cons.prems show ?thesis
      by (auto split: prod.splits)
  next
    case (Break_quit s1)
    then show ?thesis by simp
  next
    case (Break_finished s1)
    with tick_finished [of s ob s1] Cons.prems show ?thesis by simp
  next
    case (Raised e)
    then show ?thesis by simp
  qed
qed

lemma sub_step_error:
  assumes "\<bar>x\<bar> \<le> 2 ^ 31 + 8" "\<bar>d\<bar> \<le> 1"
  shows "\<bar>fsub x d - (x - d)\<bar> \<le> 2 powi (- 22)" and "\<bar>fsub x d\<bar> \<le> \<bar>x\<bar> + 2"
proof -
  have "\<bar>x\<bar> \<le> 2147483656" using assms(1) by simp
  with assms(2) have "\<bar>x - d\<bar> < 4294967296" by linarith
  then have "\<bar>x - d\<bar> < 2 ^ 32" by simp
  then have "\<bar>x - d\<bar> < 2 powi (31 + 1)" by simp
  from round_double_error [OF this]
  show e: "\<bar>fsub x d - (x - d)\<bar> \<le> 2 powi (- 22)" by (simp add: fsub_def)
  have "(2::real) powi (- 22) \<le> 1" by (simp add: power_int_minus field_simps)
  with e assms show "\<bar>fsub x d\<bar> \<le> \<bar>x\<bar> + 2" by linarith
qed

lemma clock_error:
  assumes "\<bar>pc\<bar> \<le> 2 ^ 31" "\<bar>x\<bar> \<le> 2 ^ 31 + 16"
  shows "\<bar>fsub pc x - (pc - x)\<bar> \<le> 2 powi (- 21)"
proof -
  have "\<bar>pc\<bar> \<le> 2147483648" "\<bar>x\<bar> \<le> 2147483664" using assms by simp_all
  then have "\<bar>pc - x\<bar> < 8589934592" by linarith
  then have "\<bar>pc - x\<bar> < 2 ^ 33" by simp
  then have "\<bar>pc - x\<bar> < 2 powi (32 + 1)" by simp
  from round_double_error [OF this] show ?thesis by (simp add: fsub_def)
qed

lemma step_0_05_error: "\<bar>step_0_05 - 5 / 100\<bar> \<le> 2 powi (- 58)"
proof -
  have "\<bar>5 / 100 :: real\<bar> < 2 powi (- 5 + 1)" by (simp add: power_int_minus)
  from round_double_error [OF this] show ?thesis by (simp add: step_0_05_def)
qed

lemma step_0_05_small: "\<bar>step_0_05\<bar> \<le> 1"
proof -
  have "(2::real) powi (- 58) \<le> 1 / 2" by (simp add: power_int_minus field_simps)
  with step_0_05_error show ?thesis by linarith
qed

lemma pow2_sums:
  "(2::real) powi (- 21) + 2 powi (- 22) + 2 powi (- 21) \<le> 2 powi (- 19)"
  "(2::real) powi (- 21) + 5 * 2 powi (- 22) + 5 * 2 powi (- 58) + 2 powi (- 21) \<le> 2 powi (- 18)"
  "(2::real) powi (- 21) + 2 powi (- 22) \<le> 2 powi (- 20)"
  by (simp_all add: power_int_minus field_simps)

lemma nudge_elapsed_error:
  assumes "\<bar>start s\<bar> \<le> 2 ^ 31" "\<bar>pc\<bar> \<le> 2 ^ 31" "\<bar>d\<bar> \<le> 1"
  shows "\<bar>elapsed (nudge d s) pc - (elapsed s pc + d)\<bar> \<le> 2 powi (- 19)"
proof -
  have sb: "\<bar>start s\<bar> \<le> 2 ^ 31 + 8" using assms(1) by simp
  note e0 = sub_step_error [OF sb assms(3)]
  have "\<bar>fsub (start s) d\<bar> \<le> 2 ^ 31 + 16" using e0(2) assms(1) by linarith
  note e1 = clock_error [OF assms(2) this]
  have "\<bar>start s\<bar> \<le> 2 ^ 31 + 16" using assms(1) by simp
  note e2 = clock_error [OF assms(2) this]
  have "\<bar>fsub pc (fsub (start s) d) - (fsub pc (start s) + d)\<bar> \<le>
      2 powi (- 21) + 2 powi (- 22) + 2 powi (- 21)"
    using e0(1) e1 e2 by linarith
  with pow2_sums(1) show ?thesis by (simp add: elapsed_def nudge_def)
qed

lemma five_nudges_error:
  assumes "\<bar>start s\<bar> \<le> 2 ^ 31" "\<bar>pc\<bar> \<le> 2 ^ 31"
  shows "\<bar>elapsed ((nudge step_0_05 ^^ 5) s) pc - (elapsed s pc + 25 / 100)\<bar> \<le> 2 powi (- 18)"
proof -
  define c where "c = step_0_05"
  define x0 where "x0 = start s"
  define x1 where "x1 = fsub x0 c"
  define x2 where "x2 = fsub x1 c"
  define x3 where "x3 = fsub x2 c"
  define x4 where "x4 = fsub x3 c"
  define x5 where "x5 = fsub x4 c"
  have cs: "\<bar>c\<bar> \<le> 1" unfolding c_def by (rule step_0_05_small)
  have ce: "\<bar>c - 5 / 100\<bar> \<le> 2 powi (- 58)" unfolding c_def by (rule step_0_05_error)
  have b0: "\<bar>x0\<bar> \<le> 2 ^ 31" using assms(1) by (simp add: x0_def)
  then have b0': "\<bar>x0\<bar> \<le> 2 ^ 31 + 8" by simp
  note s1 = sub_step_error [OF b0' cs, folded x1_def]
  have b1: "\<bar>x1\<bar> \<le> 2 ^ 31 + 8" using s1(2) b0 by linarith
  note s2 = sub_step_error [OF b1 cs, folded x2_def]
  have b2: "\<bar>x2\<bar> \<le> 2 ^ 31 + 8" using s2(2) s1(2) b0 by linarith
  note s3 = sub_step_error [OF b2 cs, folded x3_def]
  have b3: "\<bar>x3\<bar> \<le> 2 ^ 31 + 8" using s3(2) s2(2) s1(2) b0 by linarith
  note s4 = sub_step_error [OF b3 cs, folded x4_def]
  have b4: "\<bar>x4\<bar> \<le> 2 ^ 31 + 8" using s4(2) s3(2) s2(2) s1(2) b0 by linarith
  note s5 = sub_step_error [OF b4 cs, folded x5_def]
  have b5: "\<bar>x5\<bar> \<le> 2 ^ 31 + 16" using s5(2) s4(2) s3(2) s2(2) s1(2) b0 by linarith
  have "\<bar>x5 - (x0 - 25 / 100)\<bar> \<le> 5 * 2 powi (- 22) + 5 * 2 powi (- 58)"
    using s1(1) s2(1) s3(1) s4(1) s5(1) ce by linarith
  moreover note e5 = clock_error [OF assms(2) b5]
  moreover have "\<bar>x0\<bar> \<le> 2 ^ 31 + 16" using b0 by simp
  note e0 = clock_error [OF assms(2) this]
  ultimately have "\<bar>fsub pc x5 - (fsub pc x0 + 25 / 100)\<bar> \<le>
      2 powi (- 21) + 5 * 2 powi (- 22) + 5 * 2 powi (- 58) + 2 powi (- 21)"
    using e0 by linarith
  moreover have "start ((nudge step_0_05 ^^ 5) s) = x5"
    by (simp only: nudge_pow_fields)
       (simp add: eval_nat_numeral x5_def x4_def x3_def x2_def x1_def x0_def c_def)
  ultimately show ?thesis using pow2_sums(2) by (simp add: elapsed_def x0_def)
qed

lemma initial_elapsed_error:
  assumes "\<bar>clock0\<bar> \<le> 2 ^ 31" "\<bar>i\<bar> \<le> 2 ^ 31"
  shows "\<bar>elapsed (initial_session lyr clock0 i) clock0 - (- i)\<bar> \<le> 2 powi (- 20)"
proof -
  have nb: "\<bar>clock0\<bar> \<le> 2147483648" "\<bar>i\<bar> \<le> 2147483648" using assms by simp_all
  then have "\<bar>clock0 + i\<bar> < 8589934592" by linarith
  then have "\<bar>clock0 + i\<bar> < 2 ^ 33" by simp
  then have "\<bar>clock0 + i\<bar> < 2 powi (32 + 1)" by simp
  from round_double_error [OF this]
  have e1: "\<bar>fadd clock0 i - (clock0 + i)\<bar> \<le> 2 powi (- 21)" by (simp add: fadd_def)
  have "(2::real) powi (- 21) \<le> 1" by (simp add: power_int_minus field_simps)
  with e1 nb have "\<bar>clock0 - fadd clock0 i\<bar> < 4294967296" by linarith
  then have "\<bar>clock0 - fadd clock0 i\<bar> < 2 ^ 32" by simp
  then have "\<bar>clock0 - fadd clock0 i\<bar> < 2 powi (31 + 1)" by simp
  from round_double_error [OF this]
  have e2: "\<bar>fsub clock0 (fadd clock0 i) - (clock0 - fadd clock0 i)\<bar> \<le> 2 powi (- 22)"
    by (simp add: fsub_def)
  have "\<bar>fsub clock0 (fadd clock0 i) - (- i)\<bar> \<le> 2 powi (- 21) + 2 powi (- 22)"
    using e1 e2 by linarith
  with pow2_sums(3) show ?thesis by (simp add: elapsed_def initial_session_def)
qed

lemma small_sums:
  "fadd 100 0 = 100" "fadd 10 1 = 11" "fsub 10 11 = - 1"
  by code_simp+

lemma demo_session_eq:
  "demo_session =
     \<lparr>lyrics = [\<lparr>t = 1.5, text = ''Hello''\<rparr>, \<lparr>t = 3, text = ''World''\<rparr>, \<lparr>t = 3, text = ''Again''\<rparr>],
      last_stamp = 3, start = 100, offset = 0, active_idx = - 1\<rparr>"
  by (simp add: demo_session_def tie_track initial_session_def small_sums)

lemma inexact_start:
  "fsub (round_double (1003 / 10)) (fadd (round_double (1003 / 10)) (round_double (1 / 10))) \<noteq>
     - round_double (1 / 10)"
  by code_simp

lemma nudged_demo:
  "fsub 101 (fsub 100 step_0_05) \<noteq> fsub 101 100 + step_0_05"
  "fsub 101 (fsub 100 step_0_05) \<noteq> fsub 101 100 + 5 / 100"
  "fsub 101 (fsub 100 step_0_05) \<noteq> fadd (fsub 101 100) step_0_05"
  by code_simp+

lemma five_steps_offset:
  "fadd (fadd (fadd (fadd (fadd 0 step_0_05) step_0_05) step_0_05) step_0_05) step_0_05 = 25 / 100"
  by code_simp

lemma demo_bound: "fadd (last_stamp demo_session) 1 < elapsed demo_session 105"
  unfolding demo_session_eq by code_simp

section \<open>Claims about the session\<close>

text \<open>
  C2, as stated (the anchor is \<open>now - i\<close> and the elapsed time right after creation is
  \<open>+i\<close>), fails: with clock reading \<open>10\<close> and initial offset \<open>1\<close> the anchor is
  \<open>11\<close>, not \<open>9\<close>, and the elapsed time at that reading is \<open>-1\<close>.
\<close>

theorem initial_session_anchor_counterexample:
  "\<not> (start (initial_session [\<lparr>t = 0, text = []\<rparr>] 10 1) = 10 - 1 \<and>
      elapsed (initial_session [\<lparr>t = 0, text = []\<rparr>] 10 1) 10 = 1)"
  by (simp add: initial_session_def elapsed_def small_sums)

text \<open>
  C2, amended. For every initial offset \<open>i\<close>, the session is created with the anchor
  \<open>now + i\<close>, a float sum, so the elapsed time sampled at the same clock reading is the
  float difference \<open>now - anchor\<close>: it is \<open>-i\<close> up to rounding, within \<open>2 ^ (-20)\<close>
  seconds for clock readings and offsets up to \<open>2 ^ 31\<close> seconds. It is exactly \<open>-1\<close>
  at clock reading \<open>10\<close> with offset \<open>1\<close>, and not exactly \<open>-0.1\<close> at clock reading
  \<open>100.3\<close> with offset \<open>0.1\<close>.
\<close>

theorem initial_session_anchor:
  "start (initial_session lyr clock0 i) = round_double (clock0 + i) \<and>
   elapsed (initial_session lyr clock0 i) clock0 = round_double (clock0 - round_double (clock0 + i)) \<and>
   (\<bar>clock0\<bar> \<le> 2 ^ 31 \<and> \<bar>i\<bar> \<le> 2 ^ 31 \<longrightarrow>
      \<bar>elapsed (initial_session lyr clock0 i) clock0 - (- i)\<bar> \<le> 2 powi (- 20)) \<and>
   elapsed (initial_session lyr 10 1) 10 = - 1 \<and>
   elapsed (initial_session lyr (round_double (1003 / 10)) (round_double (1 / 10)))
       (round_double (1003 / 10)) \<noteq> - round_double (1 / 10)"
proof (intro conjI impI)
  show "start (initial_session lyr clock0 i) = round_double (clock0 + i)"
    by (simp add: initial_session_def fadd_def)
  show "elapsed (initial_session lyr clock0 i) clock0 =
      round_double (clock0 - round_double (clock0 + i))"
    by (simp add: initial_session_def elapsed_def fadd_def fsub_def)
  show "elapsed (initial_session lyr 10 1) 10 = - 1"
    by (simp add: initial_session_def elapsed_def small_sums)
  show "elapsed (initial_session lyr (round_double (1003 / 10)) (round_double (1 / 10)))
       (round_double (1003 / 10)) \<noteq> - round_double (1 / 10)"
    using inexact_start by (simp add: initial_session_def elapsed_def)
next
  assume "\<bar>clock0\<bar> \<le> 2 ^ 31 \<and> \<bar>i\<bar> \<le> 2 ^ 31"
  then show "\<bar>elapsed (initial_session lyr clock0 i) clock0 - (- i)\<bar> \<le> 2 powi (- 20)"
    by (intro initial_elapsed_error) simp_all
qed

theorem initial_session_anchor_witness:
  "\<bar>10 :: real\<bar> \<le> 2 ^ 31 \<and> \<bar>1 :: real\<bar> \<le> 2 ^ 31 \<and>
   \<bar>elapsed (initial_session [] 10 1) 10 - (- 1)\<bar> \<le> 2 powi (- 20)"
  using initial_session_anchor [of "[]" 10 1] by simp

text \<open>
  C3, as stated (after a nudge the elapsed time is exactly \<open>d\<close> greater), fails: in the
  session started at clock reading \<open>100\<close>, after the up key the elapsed time at clock
  reading \<open>101\<close> is \<open>1.0499999999999972\<close>; before, it is \<open>1\<close>, and \<open>1\<close> plus the step
  is \<open>1.05\<close>, whether the step is the double \<open>0.05\<close> or \<open>5 / 100\<close> and whether the sum
  is exact or rounded.
\<close>

theorem nudge_exact_counterexample:
  "\<not> (elapsed (nudge step_0_05 demo_session) 101 = elapsed demo_session 101 + step_0_05 \<or>
      elapsed (nudge step_0_05 demo_session) 101 = elapsed demo_session 101 + 5 / 100 \<or>
      elapsed (nudge step_0_05 demo_session) 101 = fadd (elapsed demo_session 101) step_0_05)"
  using nudged_demo by (simp add: demo_session_eq elapsed_def nudge_def)

text \<open>
  C3, amended. The arrow keys are \<open>nudge\<close> by the double \<open>0.05\<close> and by its negative.
  After \<open>nudge d\<close> the displayed offset is the float sum of the offset and \<open>d\<close>, and
  the elapsed time at any clock reading is greater by \<open>d\<close> up to rounding, within
  \<open>2 ^ (-19)\<close> seconds for anchors and clock readings up to \<open>2 ^ 31\<close> seconds and
  \<open>|d| \<le> 1\<close>. Five nudges by \<open>0.05\<close> make the displayed offset exactly \<open>0.25\<close> from a
  starting offset of \<open>0\<close>, and the elapsed time greater by \<open>0.25\<close> within \<open>2 ^ (-18)\<close>
  seconds; five iterations of the loop that each read the up key while the player runs
  leave the offset and the anchor of these five nudges.
\<close>

theorem nudge_shifts_elapsed:
  "handle_key KEY_UP s = Some (nudge step_0_05 s) \<and>
   handle_key KEY_DOWN s = Some (nudge (- step_0_05) s) \<and>
   \<bar>step_0_05 - 5 / 100\<bar> \<le> 2 powi (- 58) \<and>
   offset (nudge d s) = round_double (offset s + d) \<and>
   (\<bar>start s\<bar> \<le> 2 ^ 31 \<and> \<bar>pc\<bar> \<le> 2 ^ 31 \<and> \<bar>d\<bar> \<le> 1 \<longrightarrow>
      \<bar>elapsed (nudge d s) pc - (elapsed s pc + d)\<bar> \<le> 2 powi (- 19)) \<and>
   offset ((nudge step_0_05 ^^ 5) (initial_session lyr clock0 0)) = 25 / 100 \<and>
   (\<bar>start s\<bar> \<le> 2 ^ 31 \<and> \<bar>pc\<bar> \<le> 2 ^ 31 \<longrightarrow>
      \<bar>elapsed ((nudge step_0_05 ^^ 5) s) pc - (elapsed s pc + 25 / 100)\<bar> \<le> 2 powi (- 18)) \<and>
   (length obs = 5 \<and> (\<forall>ob \<in> set obs. getch ob = Got KEY_UP \<and> poll ob = None) \<longrightarrow>
      (\<exists>s'. main_loop s obs = (5, Continue s') \<and>
            offset s' = offset ((nudge step_0_05 ^^ 5) s) \<and>
            start s' = start ((nudge step_0_05 ^^ 5) s)))"
proof (intro conjI impI)
  show "handle_key KEY_UP s = Some (nudge step_0_05 s)" by (rule handle_key_up)
  show "handle_key KEY_DOWN s = Some (nudge (- step_0_05) s)" by (rule handle_key_down)
  show "\<bar>step_0_05 - 5 / 100\<bar> \<le> 2 powi (- 58)" by (rule step_0_05_error)
  show "offset (nudge d s) = round_double (offset s + d)" by (simp add: nudge_def fadd_def)
  show "offset ((nudge step_0_05 ^^ 5) (initial_session lyr clock0 0)) = 25 / 100"
    by (simp only: nudge_pow_fields)
       (simp add: eval_nat_numeral initial_session_def five_steps_offset)
next
  assume "\<bar>start s\<bar> \<le> 2 ^ 31 \<and> \<bar>pc\<bar> \<le> 2 ^ 31 \<and> \<bar>d\<bar> \<le> 1"
  then show "\<bar>elapsed (nudge d s) pc - (elapsed s pc + d)\<bar> \<le> 2 powi (- 19)"
    by (intro nudge_elapsed_error) simp_all
next
  assume "\<bar>start s\<bar> \<le> 2 ^ 31 \<and> \<bar>pc\<bar> \<le> 2 ^ 31"
  then show "\<bar>elapsed ((nudge step_0_05 ^^ 5) s) pc - (elapsed s pc + 25 / 100)\<bar> \<le> 2 powi (- 18)"
    by (intro five_nudges_error) simp_all
next
  assume a: "length obs = 5 \<and> (\<forall>ob \<in> set obs. getch ob = Got KEY_UP \<and> poll ob = None)"
  then obtain s' where "main_loop s obs = (length obs, Continue s')"
    "offset s' = offset ((nudge step_0_05 ^^ length obs) s)"
    "start s' = start ((nudge step_0_05 ^^ length obs) s)"
    using main_loop_key_up [of obs s] by blast
  with a show "\<exists>s'. main_loop s obs = (5, Continue s') \<and>
            offset s' = offset ((nudge step_0_05 ^^ 5) s) \<and>
            start s' = start ((nudge step_0_05 ^^ 5) s)"
    by simp
qed

theorem nudge_shifts_elapsed_witness:
  "\<bar>start demo_session\<bar> \<le> 2 ^ 31 \<and> \<bar>101 :: real\<bar> \<le> 2 ^ 31 \<and> \<bar>step_0_05\<bar> \<le> 1 \<and>
   \<bar>elapsed (nudge step_0_05 demo_session) 101 - (elapsed demo_session 101 + step_0_05)\<bar>
     \<le> 2 powi (- 19) \<and>
   \<bar>elapsed ((nudge step_0_05 ^^ 5) demo_session) 101 - (elapsed demo_session 101 + 25 / 100)\<bar>
     \<le> 2 powi (- 18) \<and>
   length (replicate 5 \<lparr>perf_counter = 101, getch = Got KEY_UP, poll = None\<rparr>) = 5 \<and>
   getch \<lparr>perf_counter = 101, getch = Got KEY_UP, poll = None\<rparr> = Got KEY_UP \<and>
   poll \<lparr>perf_counter = 101, getch = Got KEY_UP, poll = None\<rparr> = None \<and>
   (\<exists>s'. main_loop demo_session (replicate 5 \<lparr>perf_counter = 101, getch = Got KEY_UP, poll = None\<rparr>)
           = (5, Continue s') \<and>
         offset s' = offset ((nudge step_0_05 ^^ 5) demo_session))"
proof -
  have b: "\<bar>start demo_session\<bar> \<le> 2 ^ 31" "\<bar>101 :: real\<bar> \<le> 2 ^ 31"
    by (simp_all add: demo_session_eq)
  from b step_0_05_small
    nudge_shifts_elapsed
      [of demo_session step_0_05 101 _ _ "replicate 5 \<lparr>perf_counter = 101, getch = Got KEY_UP, poll = None\<rparr>"]
  show ?thesis by auto
qed

text \<open>
  C6. When the lyrics file yields no timestamped line, \<open>karaoke\<close> ends with the
  empty-track error without calling \<open>Popen\<close> and without starting an iteration of the
  loop; and it ends with that error if and only if the parsed track is empty.
\<close>

theorem empty_track_fails_fast:
  "(parse_lrc lrc = [] \<longrightarrow>
      karaoke lrc offset0 ffplay_found clock0 obs =
        \<lparr>popen_called = False, iterations = 0, outcome = Inl EmptyTrackError\<rparr>) \<and>
   (outcome (karaoke lrc offset0 ffplay_found clock0 obs) = Inl EmptyTrackError) =
     (parse_lrc lrc = [])"
  by (auto simp add: karaoke_def Let_def split: prod.splits)

lemma no_tags: "parse_lrc ''[ar:Nobody]'' = []"
  by code_simp

theorem empty_track_fails_fast_witness:
  "parse_lrc ''[ar:Nobody]'' = [] \<and>
   karaoke ''[ar:Nobody]'' 0 True 100 [\<lparr>perf_counter = 101, getch = Got (- 1), poll = None\<rparr>] =
     \<lparr>popen_called = False, iterations = 0, outcome = Inl EmptyTrackError\<rparr>"
  using empty_track_fails_fast
    [of "''[ar:Nobody]''" 0 True 100 "[\<lparr>perf_counter = 101, getch = Got (- 1), poll = None\<rparr>]"]
    no_tags
  by blast

text \<open>
  C7. An iteration leaves the loop because playback ended only when the player is no
  longer running and the elapsed time sampled in this iteration is past the last
  timestamp plus one second (the float sum \<open>last_stamp + 1.0\<close>); when the player still
  runs, or the elapsed time is not past that bound, the iteration does not end the loop
  this way, and a loop whose every iteration sees the player running never does.
\<close>

theorem playback_end_needs_both:
  "(tick s ob = Break_finished s' \<longrightarrow>
      poll ob \<noteq> None \<and> fadd (last_stamp s) 1 < elapsed s (perf_counter ob)) \<and>
   (poll ob = None \<or> elapsed s (perf_counter ob) \<le> fadd (last_stamp s) 1 \<longrightarrow>
      tick s ob \<noteq> Break_finished s') \<and>
   ((\<forall>ob \<in> set obs. poll ob = None) \<longrightarrow> snd (main_loop s obs) \<noteq> Break_finished s')"
  using tick_finished [of s ob s'] main_loop_alive [of obs s s'] by auto

lemma demo_tick_finished:
  "tick demo_session \<lparr>perf_counter = 105, getch = Got (- 1), poll = Some 0\<rparr> =
     Break_finished (demo_session\<lparr>active_idx := 2\<rparr>)"
  unfolding demo_session_eq by code_simp

theorem playback_end_needs_both_witness:
  "tick demo_session \<lparr>perf_counter = 105, getch = Got (- 1), poll = Some 0\<rparr> =
     Break_finished (demo_session\<lparr>active_idx := 2\<rparr>) \<and>
   poll \<lparr>perf_counter = 105, getch = Got (- 1), poll = Some 0\<rparr> \<noteq> None \<and>
   fadd (last_stamp demo_session) 1 < elapsed demo_session 105 \<and>
   poll \<lparr>perf_counter = 105, getch = Got (- 1), poll = None\<rparr> = None \<and>
   tick demo_session \<lparr>perf_counter = 105, getch = Got (- 1), poll = None\<rparr> \<noteq>
     Break_finished (demo_session\<lparr>active_idx := 2\<rparr>) \<and>
   snd (main_loop demo_session [\<lparr>perf_counter = 105, getch = Got (- 1), poll = None\<rparr>]) \<noteq>
     Break_finished (demo_session\<lparr>active_idx := 2\<rparr>)"
  using playback_end_needs_both
      [of demo_session "\<lparr>perf_counter = 105, getch = Got (- 1), poll = Some 0\<rparr>"
        "demo_session\<lparr>active_idx := 2\<rparr>" "[]"]
    playback_end_needs_both
      [of demo_session "\<lparr>perf_counter = 105, getch = Got (- 1), poll = None\<rparr>"
        "demo_session\<lparr>active_idx := 2\<rparr>"
        "[\<lparr>perf_counter = 105, getch = Got (- 1), poll = None\<rparr>]"]
    demo_tick_finished
  by simp

text \<open>
  C9. A key other than \<open>q\<close>, ESC, up and down leaves the session as it is and does not
  leave the loop: the iteration that reads it keeps anchor and displayed offset, and goes
  on to the next iteration unless the playback-ended condition of that iteration holds.
\<close>

theorem other_keys_ignored:
  "ch \<noteq> ord_q \<and> ch \<noteq> ESC \<and> ch \<noteq> KEY_UP \<and> ch \<noteq> KEY_DOWN \<longrightarrow>
     handle_key ch s = Some s \<and>
     (getch ob = Got ch \<longrightarrow>
        (\<exists>s'. (tick s ob = Continue s' \<or> tick s ob = Break_finished s') \<and>
              start s' = start s \<and> offset s' = offset s \<and>
              (poll ob = None \<or> elapsed s (perf_counter ob) \<le> fadd (last_stamp s) 1 \<longrightarrow>
                 tick s ob = Continue s')))"
proof (intro impI conjI)
  assume k: "ch \<noteq> ord_q \<and> ch \<noteq> ESC \<and> ch \<noteq> KEY_UP \<and> ch \<noteq> KEY_DOWN"
  then show "handle_key ch s = Some s" by (simp add: handle_key_other)
  assume g: "getch ob = Got ch"
  from k have "handle_key ch (seen s ob) = Some (seen s ob)" by (simp add: handle_key_other)
  with g have tk: "tick s ob =
      (if finished s ob then Break_finished (seen s ob) else Continue (seen s ob))"
    by (simp add: tick_eq key_code_def)
  show "\<exists>s'. (tick s ob = Continue s' \<or> tick s ob = Break_finished s') \<and>
              start s' = start s \<and> offset s' = offset s \<and>
              (poll ob = None \<or> elapsed s (perf_counter ob) \<le> fadd (last_stamp s) 1 \<longrightarrow>
                 tick s ob = Continue s')"
    by (rule exI [of _ "seen s ob"]) (auto simp add: tk seen_fields finished_def)
qed

theorem other_keys_ignored_witness:
  "(120 :: int) \<noteq> ord_q \<and> (120 :: int) \<noteq> ESC \<and> (120 :: int) \<noteq> KEY_UP \<and> (120 :: int) \<noteq> KEY_DOWN \<and>
   handle_key 120 demo_session = Some demo_session \<and>
   getch \<lparr>perf_counter = 103, getch = Got 120, poll = None\<rparr> = Got 120 \<and>
   (\<exists>s'. tick demo_session \<lparr>perf_counter = 103, getch = Got 120, poll = None\<rparr> = Continue s' \<and>
         start s' = start demo_session \<and> offset s' = offset demo_session)"
  using other_keys_ignored [of 120 demo_session "\<lparr>perf_counter = 103, getch = Got 120, poll = None\<rparr>"]
  by (auto simp add: ord_q_def ESC_def KEY_UP_def KEY_DOWN_def)

end
